theory Spec2Isabelle
  imports Main "HOL-Library.Word"
begin

unbundle bit_operations_syntax

section \<open>Data model\<close>

text \<open>
  The encoder (\<open>Builder\<close>) and the decoder (\<open>Table\<close>) of the flatbuffers package.
  \<open>UOffsetT\<close> is Go's \<open>uint32\<close>, \<open>SOffsetT\<close> is \<open>int32\<close> (kept as its bit pattern, read
  with \<open>sint\<close> where the sign matters), \<open>VOffsetT\<close> is \<open>uint16\<close>. Go's \<open>int\<close> is modelled
  as \<open>int\<close>; the one place where its 64-bit width is reachable (doubling a length of
  \<open>2^62\<close> or more) is written out in \<open>growByteBuffer\<close>.
\<close>

type_synonym byte = "8 word"
type_synonym UOffsetT = "32 word"
type_synonym SOffsetT = "32 word"
type_synonym VOffsetT = "16 word"

text \<open>Every \<open>panic\<close> of the source, and Go's run-time panics on slices, as values.\<close>

datatype panic =
    MustBeInsideObject
  | MustNotBeNested
  | MustCallFinishFirst
  | CannotGrowBeyond2GB
  | UnreachableOffset
  | InlineWriteOutsideObject
  | IncorrectFileIdentifierLength
  | RuntimeError

datatype 'a outcome = Returns 'a | Panics panic

text \<open>
  The struct \<open>Builder\<close>. \<open>spare\<close> holds the bytes of the backing array of \<open>Bytes\<close> beyond
  its length, so that \<open>cap(b.Bytes) = length Bytes + length spare\<close>.
\<close>

record Builder =
  Bytes :: "byte list"
  spare :: "byte list"
  minalign :: int
  vtable :: "UOffsetT list"
  objectEnd :: UOffsetT
  vtables :: "UOffsetT list"
  head :: UOffsetT
  nested :: bool
  finished :: bool

text \<open>
  A method of \<open>Builder\<close> takes the builder and gives back what it returned, or the panic
  it raised, together with the builder as the call left it.
\<close>

type_synonym 'a action = "Builder \<Rightarrow> 'a outcome \<times> Builder"

definition andThen :: "'a action \<Rightarrow> ('a \<Rightarrow> 'b action) \<Rightarrow> 'b action" where
  "andThen m f b =
     (case m b of
        (Returns a, b1) \<Rightarrow> f a b1
      | (Panics p, b1) \<Rightarrow> (Panics p, b1))"

section \<open>Raw placement primitives\<close>

text \<open>
  Modelled from the spec: the functions \<open>GetUint8\<close> ... \<open>GetUint64\<close>, \<open>WriteUint8\<close> ...
  \<open>WriteUint64\<close> and their signed and offset-typed siblings, and the constants
  \<open>SizeByte\<close> ... \<open>SizeUOffsetT\<close> and \<open>VtableMetadataFields\<close>, are not among the source
  files. The spec gives them as fixed-width little-endian encode and decode at a byte
  position, with \<open>VOffsetT\<close> two bytes wide, \<open>UOffsetT\<close> and \<open>SOffsetT\<close> four bytes wide
  and two metadata entries in front of a vtable's field entries. A read or write of
  \<open>k\<close> bytes at a position with fewer than \<open>k\<close> bytes left is Go's index panic.
\<close>

definition le_bytes :: "nat \<Rightarrow> 'a::len word \<Rightarrow> byte list" where
  "le_bytes k w = map (\<lambda>i. ucast (drop_bit (8 * i) w)) [0..<k]"

definition le_word :: "byte list \<Rightarrow> 'a::len word" where
  "le_word bs = foldr (\<lambda>b acc. ucast b OR push_bit 8 acc) bs 0"

definition get_at :: "nat \<Rightarrow> byte list \<Rightarrow> nat \<Rightarrow> ('a::len word) outcome" where
  "get_at k bs off =
     (if off + k \<le> length bs then Returns (le_word (take k (drop off bs)))
      else Panics RuntimeError)"

definition put_at :: "nat \<Rightarrow> byte list \<Rightarrow> nat \<Rightarrow> 'a::len word \<Rightarrow> (byte list) outcome" where
  "put_at k bs off w =
     (if off + k \<le> length bs then Returns (take off bs @ le_bytes k w @ drop (off + k) bs)
      else Panics RuntimeError)"

definition SizeByte :: nat where "SizeByte = 1"
definition SizeInt16 :: nat where "SizeInt16 = 2"
definition SizeInt32 :: nat where "SizeInt32 = 4"
definition SizeInt64 :: nat where "SizeInt64 = 8"
definition SizeVOffsetT :: nat where "SizeVOffsetT = 2"
definition SizeSOffsetT :: nat where "SizeSOffsetT = 4"
definition SizeUOffsetT :: nat where "SizeUOffsetT = 4"
definition VtableMetadataFields :: nat where "VtableMetadataFields = 2"

section \<open>The builder\<close>

definition NewBuilder :: "int \<Rightarrow> Builder" where
  "NewBuilder initialSize =
     (let n = (if initialSize \<le> 0 then 0 else initialSize)
      in \<lparr>Bytes = replicate (nat n) 0, spare = [], minalign = 1, vtable = [],
          objectEnd = 0, vtables = [], head = of_int n, nested = False,
          finished = False\<rparr>)"

definition Head :: "Builder \<Rightarrow> UOffsetT" where
  "Head b = head b"

definition Offset :: "Builder \<Rightarrow> UOffsetT" where
  "Offset b = of_nat (length (Bytes b)) - head b"

subsection \<open>Growth\<close>

text \<open>
  \<open>copy(dst, src)\<close> of Go: the first \<open>min (len dst) (len src)\<close> elements of \<open>dst\<close> are
  replaced.
\<close>

definition copy_into :: "'a list \<Rightarrow> 'a list \<Rightarrow> 'a list" where
  "copy_into dst src =
     (let n = min (length dst) (length src) in take n src @ drop n dst)"

text \<open>
  \<open>growByteBuffer\<close>. The test against \<open>0xC0000000\<close> comes first. \<open>newLen := len * 2\<close> is
  a 64-bit product: from a length of \<open>2^62\<close> on it is negative and the reslice panics.
  \<open>grown\<close> is the rest of the body; \<open>append\<close> is taken to allocate exactly what is
  asked for.
\<close>

definition grown :: "Builder \<Rightarrow> Builder" where
  "grown b =
     (let len = length (Bytes b);
          newLen = (if len * 2 = 0 then 1 else len * 2);
          b1 = (if length (Bytes b) + length (spare b) \<ge> newLen
                then b\<lparr>Bytes := Bytes b @ take (newLen - len) (spare b),
                       spare := drop (newLen - len) (spare b)\<rparr>
                else b\<lparr>Bytes := Bytes b @ replicate (newLen - len) 0, spare := []\<rparr>);
          middle = newLen div 2
      in b1\<lparr>Bytes := take middle (Bytes b1) @
                        copy_into (drop middle (Bytes b1)) (take middle (Bytes b1))\<rparr>)"

definition growByteBuffer :: "unit action" where
  "growByteBuffer b =
     (if (int (length (Bytes b)) AND 0xC0000000) \<noteq> 0 then (Panics CannotGrowBeyond2GB, b)
      else if 2 ^ 62 \<le> int (length (Bytes b)) then (Panics RuntimeError, b)
      else (Returns (), grown b))"

subsection \<open>Placing values\<close>

text \<open>
  \<open>PlaceT\<close>: the cursor moves first, then \<open>WriteT(b.Bytes[b.head:], x)\<close>. One definition
  for every width; the named ones are its instances.
\<close>

definition Place :: "nat \<Rightarrow> 'a::len word \<Rightarrow> unit action" where
  "Place k x b =
     (let b1 = b\<lparr>head := head b - of_nat k\<rparr> in
      case put_at k (Bytes b1) (unat (head b1)) x of
        Panics p \<Rightarrow> (Panics p, b1)
      | Returns bs \<Rightarrow> (Returns (), b1\<lparr>Bytes := bs\<rparr>))"

definition PlaceByte :: "byte \<Rightarrow> unit action" where
  "PlaceByte = Place SizeByte"

definition PlaceVOffsetT :: "VOffsetT \<Rightarrow> unit action" where
  "PlaceVOffsetT = Place SizeVOffsetT"

definition PlaceSOffsetT :: "SOffsetT \<Rightarrow> unit action" where
  "PlaceSOffsetT = Place SizeSOffsetT"

definition PlaceUOffsetT :: "UOffsetT \<Rightarrow> unit action" where
  "PlaceUOffsetT = Place SizeUOffsetT"

fun Pad_loop :: "nat \<Rightarrow> unit action" where
  "Pad_loop 0 b = (Returns (), b)"
| "Pad_loop (Suc n) b =
     (case PlaceByte 0 b of
        (Returns u, b1) \<Rightarrow> Pad_loop n b1
      | (Panics p, b1) \<Rightarrow> (Panics p, b1))"

definition Pad :: "int \<Rightarrow> unit action" where
  "Pad n = Pad_loop (nat n)"

subsection \<open>Prep\<close>

text \<open>
  The loop of \<open>Prep\<close>: \<open>need\<close> is \<open>alignSize + size + additionalBytes\<close>. It ends because
  a growth that returns makes the buffer longer and no buffer of \<open>2^62\<close> bytes grows.
\<close>

function Prep_loop :: "int \<Rightarrow> unit action" where
  "Prep_loop need b =
     (if int (unat (head b)) \<le> need then
        (let oldBufSize = length (Bytes b) in
         case growByteBuffer b of
           (Panics p, b1) \<Rightarrow> (Panics p, b1)
         | (Returns u, b1) \<Rightarrow>
             Prep_loop need
               (b1\<lparr>head := head b1 + of_int (int (length (Bytes b1)) - int oldBufSize)\<rparr>))
      else (Returns (), b))"
  by pat_completeness auto
termination
proof (relation "measure (\<lambda>(need, b). 2 ^ 62 - length (Bytes b))")
  show "wf (measure (\<lambda>(need, b). 2 ^ 62 - length (Bytes b)))"
    by simp
next
  fix need :: int and b :: Builder and oldBufSize x u b1
  assume g: "(x, b1) = growByteBuffer b" and r: "x = Returns u"
  have lt: "int (length (Bytes b)) < 2 ^ 62"
  proof (rule ccontr)
    assume "\<not> int (length (Bytes b)) < 2 ^ 62"
    then have "2 ^ 62 \<le> int (length (Bytes b))" by (simp only: not_less)
    then have "\<exists>p. growByteBuffer b = (Panics p, b)"
      unfolding growByteBuffer_def by (simp only: if_True split: if_split) blast
    with g r show False by auto
  qed
  then have b1: "b1 = grown b"
    using g r unfolding growByteBuffer_def by (auto split: if_split_asm)
  have "length (Bytes b) < length (Bytes (grown b))"
  proof (cases "Bytes b = []")
    case True
    then have "length (Bytes (grown b)) = 1"
      unfolding grown_def Let_def copy_into_def
      by (cases "spare b") (simp_all add: min_def)
    with True show ?thesis by simp
  next
    case False
    then have "Bytes (grown b) = Bytes b @ Bytes b"
      unfolding grown_def Let_def copy_into_def
      by (cases "length (Bytes b) \<le> length (spare b)") (simp_all add: min_def)
    with False show ?thesis by simp
  qed
  with lt b1
  show "((need, b1\<lparr>head := head b1 + of_int (int (length (Bytes b1)) - int oldBufSize)\<rparr>),
         (need, b)) \<in> measure (\<lambda>(need, b). 2 ^ 62 - length (Bytes b))"
    by simp
qed

declare Prep_loop.simps [simp del]

definition Prep :: "int \<Rightarrow> int \<Rightarrow> unit action" where
  "Prep sz additionalBytes b =
     (let b1 = (if sz > minalign b then b\<lparr>minalign := sz\<rparr> else b);
          alignSize =
            (NOT (int (length (Bytes b1)) - int (unat (Head b1)) + additionalBytes) + 1)
              AND (sz - 1)
      in case Prep_loop (alignSize + sz + additionalBytes) b1 of
           (Panics p, b2) \<Rightarrow> (Panics p, b2)
         | (Returns u, b2) \<Rightarrow> Pad alignSize b2)"

subsection \<open>Prepending scalars and filling slots\<close>

definition Prepend :: "nat \<Rightarrow> 'a::len word \<Rightarrow> unit action" where
  "Prepend k x = andThen (Prep (int k) 0) (\<lambda>u. Place k x)"

definition PrependByte :: "byte \<Rightarrow> unit action" where
  "PrependByte = Prepend SizeByte"

definition PrependInt16 :: "16 word \<Rightarrow> unit action" where
  "PrependInt16 = Prepend SizeInt16"

definition PrependInt32 :: "32 word \<Rightarrow> unit action" where
  "PrependInt32 = Prepend SizeInt32"

definition PrependInt64 :: "64 word \<Rightarrow> unit action" where
  "PrependInt64 = Prepend SizeInt64"

definition PrependVOffsetT :: "VOffsetT \<Rightarrow> unit action" where
  "PrependVOffsetT = Prepend SizeVOffsetT"

definition Slot :: "int \<Rightarrow> unit action" where
  "Slot slotnum b =
     (if 0 \<le> slotnum \<and> slotnum < int (length (vtable b))
      then (Returns (), b\<lparr>vtable := (vtable b)[nat slotnum := Offset b]\<rparr>)
      else (Panics RuntimeError, b))"

text \<open>
  \<open>PrependTSlot(o, x, d)\<close> for the integer types \<open>T\<close>: nothing at all happens when
  \<open>x = d\<close>. The signed types compare as their bit patterns do.
\<close>

definition PrependSlot :: "nat \<Rightarrow> int \<Rightarrow> 'a::len word \<Rightarrow> 'a word \<Rightarrow> unit action" where
  "PrependSlot k slotnum x d b =
     (if x \<noteq> d then andThen (Prepend k x) (\<lambda>u. Slot slotnum) b
      else (Returns (), b))"

definition PrependByteSlot :: "int \<Rightarrow> byte \<Rightarrow> byte \<Rightarrow> unit action" where
  "PrependByteSlot = PrependSlot SizeByte"

definition PrependInt16Slot :: "int \<Rightarrow> 16 word \<Rightarrow> 16 word \<Rightarrow> unit action" where
  "PrependInt16Slot = PrependSlot SizeInt16"


definition PrependInt64Slot :: "int \<Rightarrow> 64 word \<Rightarrow> 64 word \<Rightarrow> unit action" where
  "PrependInt64Slot = PrependSlot SizeInt64"

definition PrependBoolSlot :: "int \<Rightarrow> bool \<Rightarrow> bool \<Rightarrow> unit action" where
  "PrependBoolSlot slotnum x d =
     PrependByteSlot slotnum (if x then 1 else 0) (if d then 1 else 0)"

subsection \<open>Nesting assertions\<close>

definition assertNested :: "unit action" where
  "assertNested b = (if \<not> nested b then (Panics MustBeInsideObject, b) else (Returns (), b))"

definition assertNotNested :: "unit action" where
  "assertNotNested b = (if nested b then (Panics MustNotBeNested, b) else (Returns (), b))"

definition assertFinished :: "unit action" where
  "assertFinished b = (if \<not> finished b then (Panics MustCallFinishFirst, b) else (Returns (), b))"

subsection \<open>Objects and vtables\<close>

text \<open>
  \<open>StartObject\<close>: both branches on \<open>cap(b.vtable)\<close> leave \<open>numfields\<close> zeros; a negative
  \<open>numfields\<close> makes \<open>make\<close> or the reslice panic, after \<open>nested\<close> was set.
\<close>

definition StartObject :: "int \<Rightarrow> unit action" where
  "StartObject numfields b =
     (case assertNotNested b of
        (Panics p, b0) \<Rightarrow> (Panics p, b0)
      | (Returns u, b0) \<Rightarrow>
          (let b1 = b0\<lparr>nested := True\<rparr> in
           if numfields < 0 then (Panics RuntimeError, b1)
           else let b2 = b1\<lparr>vtable := replicate (nat numfields) 0\<rparr>
                in (Returns (), b2\<lparr>objectEnd := Offset b2\<rparr>)))"

definition PrependSOffsetT :: "SOffsetT \<Rightarrow> unit action" where
  "PrependSOffsetT off b =
     (case Prep (int SizeSOffsetT) 0 b of
        (Panics p, b1) \<Rightarrow> (Panics p, b1)
      | (Returns u, b1) \<Rightarrow>
          if \<not> (off \<le> Offset b1) then (Panics UnreachableOffset, b1)
          else PlaceSOffsetT (Offset b1 - off + of_nat SizeSOffsetT) b1)"

definition PrependUOffsetT :: "UOffsetT \<Rightarrow> unit action" where
  "PrependUOffsetT off b =
     (case Prep (int SizeUOffsetT) 0 b of
        (Panics p, b1) \<Rightarrow> (Panics p, b1)
      | (Returns u, b1) \<Rightarrow>
          if \<not> (off \<le> Offset b1) then (Panics UnreachableOffset, b1)
          else PlaceUOffsetT (Offset b1 - off + of_nat SizeUOffsetT) b1)"

text \<open>
  \<open>vtableEqual\<close>: the loop walks \<open>a\<close> and the two-byte entries of \<open>b\<close> together;
  \<open>SOffsetT(x)\<close> of a \<open>uint16\<close> is its zero extension.
\<close>

fun vtableEqual_loop :: "UOffsetT list \<Rightarrow> UOffsetT \<Rightarrow> byte list \<Rightarrow> bool" where
  "vtableEqual_loop [] objectStart bs = True"
| "vtableEqual_loop (ai # a) objectStart bs =
     (let x = (le_word (take SizeVOffsetT bs) :: VOffsetT) in
      if x = 0 \<and> ai = 0 then vtableEqual_loop a objectStart (drop SizeVOffsetT bs)
      else
        let y = objectStart - ai in
        if (ucast x :: SOffsetT) \<noteq> y then False
        else vtableEqual_loop a objectStart (drop SizeVOffsetT bs))"

definition vtableEqual :: "UOffsetT list \<Rightarrow> UOffsetT \<Rightarrow> byte list \<Rightarrow> bool" where
  "vtableEqual a objectStart bs =
     (if length a * SizeVOffsetT \<noteq> length bs then False
      else vtableEqual_loop a objectStart bs)"

text \<open>The trimming loop of \<open>WriteVtable\<close>: the result is \<open>i + 1\<close>.\<close>

fun trim_loop :: "nat \<Rightarrow> UOffsetT list \<Rightarrow> nat" where
  "trim_loop 0 vt = 0"
| "trim_loop (Suc i) vt = (if vt ! i = 0 then trim_loop i vt else Suc i)"

text \<open>
  The search through \<open>b.vtables\<close>, most recent first. \<open>vtable_candidate\<close> is the body
  of the loop up to the call of \<open>vtableEqual\<close>, for the committed vtable at
  \<open>vt2Offset\<close>; a two-index slice of \<open>b.Bytes\<close> may reach into the spare capacity. The
  argument of \<open>find_vtable\<close> is the list of offsets still to visit.
\<close>

definition vtable_candidate :: "UOffsetT \<Rightarrow> UOffsetT \<Rightarrow> Builder \<Rightarrow> bool outcome" where
  "vtable_candidate vt2Offset objectOffset b =
     (let vt2Start = int (length (Bytes b)) - int (unat vt2Offset) in
      if vt2Start < 0 then Panics RuntimeError
      else
        case get_at SizeVOffsetT (Bytes b) (nat vt2Start) of
          Panics p \<Rightarrow> Panics p
        | Returns (vt2Len :: VOffsetT) \<Rightarrow>
            (let metadata = int (VtableMetadataFields * SizeVOffsetT);
                 vt2End = vt2Start + int (unat vt2Len)
             in if \<not> (vt2Start + metadata \<le> vt2End \<and>
                       vt2End \<le> int (length (Bytes b) + length (spare b)))
                then Panics RuntimeError
                else
                  let vt2 = take (nat (vt2End - (vt2Start + metadata)))
                              (drop (nat (vt2Start + metadata)) (Bytes b @ spare b))
                  in Returns (vtableEqual (vtable b) objectOffset vt2)))"

fun find_vtable :: "UOffsetT list \<Rightarrow> UOffsetT \<Rightarrow> Builder \<Rightarrow> UOffsetT outcome" where
  "find_vtable [] objectOffset b = Returns 0"
| "find_vtable (vt2Offset # rest) objectOffset b =
     (case vtable_candidate vt2Offset objectOffset b of
        Panics p \<Rightarrow> Panics p
      | Returns equal \<Rightarrow>
          if equal then Returns vt2Offset else find_vtable rest objectOffset b)"

text \<open>The loop that writes the entries, last field first.\<close>

fun write_entries :: "UOffsetT list \<Rightarrow> UOffsetT \<Rightarrow> unit action" where
  "write_entries [] objectOffset b = (Returns (), b)"
| "write_entries (v # vs) objectOffset b =
     (let off = (if v \<noteq> 0 then objectOffset - v else 0) in
      case PrependVOffsetT (ucast off) b of
        (Panics p, b1) \<Rightarrow> (Panics p, b1)
      | (Returns u, b1) \<Rightarrow> write_entries vs objectOffset b1)"

text \<open>The branch of \<open>WriteVtable\<close> that found no equal vtable.\<close>

definition write_new_vtable :: "UOffsetT \<Rightarrow> unit action" where
  "write_new_vtable objectOffset b =
     (case write_entries (rev (vtable b)) objectOffset b of
        (Panics p, b1) \<Rightarrow> (Panics p, b1)
      | (Returns u, b1) \<Rightarrow>
          (let objectSize = objectOffset - objectEnd b1 in
           case PrependVOffsetT (ucast objectSize) b1 of
             (Panics p, b2) \<Rightarrow> (Panics p, b2)
           | (Returns u, b2) \<Rightarrow>
               (let vBytes = (length (vtable b2) + VtableMetadataFields) * SizeVOffsetT in
                case PrependVOffsetT (of_nat vBytes) b2 of
                  (Panics p, b3) \<Rightarrow> (Panics p, b3)
                | (Returns u, b3) \<Rightarrow>
                    (let objectStart = (of_nat (length (Bytes b3)) :: SOffsetT) - objectOffset in
                     if sint objectStart < 0 then (Panics RuntimeError, b3)
                     else
                       case put_at SizeSOffsetT (Bytes b3) (nat (sint objectStart))
                              (Offset b3 - objectOffset) of
                         Panics p \<Rightarrow> (Panics p, b3)
                       | Returns bs \<Rightarrow>
                           (let b4 = b3\<lparr>Bytes := bs\<rparr>
                            in (Returns (), b4\<lparr>vtables := vtables b4 @ [Offset b4]\<rparr>))))))"

text \<open>The branch that found one.\<close>

definition reuse_vtable :: "UOffsetT \<Rightarrow> UOffsetT \<Rightarrow> unit action" where
  "reuse_vtable existingVtable objectOffset b =
     (let objectStart = (of_nat (length (Bytes b)) :: SOffsetT) - objectOffset;
          b1 = b\<lparr>head := objectStart\<rparr>
      in case put_at SizeSOffsetT (Bytes b1) (unat (head b1))
                (existingVtable - objectOffset) of
           Panics p \<Rightarrow> (Panics p, b1)
         | Returns bs \<Rightarrow> (Returns (), b1\<lparr>Bytes := bs\<rparr>))"

definition WriteVtable :: "UOffsetT action" where
  "WriteVtable b =
     (case PrependSOffsetT 0 b of
        (Panics p, b1) \<Rightarrow> (Panics p, b1)
      | (Returns u, b1) \<Rightarrow>
          (let objectOffset = Offset b1;
               b2 = b1\<lparr>vtable := take (trim_loop (length (vtable b1)) (vtable b1)) (vtable b1)\<rparr>
           in case find_vtable (rev (vtables b2)) objectOffset b2 of
                Panics p \<Rightarrow> (Panics p, b2)
              | Returns existingVtable \<Rightarrow>
                  (case (if existingVtable = 0 then write_new_vtable objectOffset b2
                         else reuse_vtable existingVtable objectOffset b2) of
                     (Panics p, b3) \<Rightarrow> (Panics p, b3)
                   | (Returns u, b3) \<Rightarrow> (Returns objectOffset, b3\<lparr>vtable := []\<rparr>))))"

definition EndObject :: "UOffsetT action" where
  "EndObject b =
     (case assertNested b of
        (Panics p, b0) \<Rightarrow> (Panics p, b0)
      | (Returns u, b0) \<Rightarrow>
          (case WriteVtable b0 of
             (Panics p, b1) \<Rightarrow> (Panics p, b1)
           | (Returns n, b1) \<Rightarrow> (Returns n, b1\<lparr>nested := False\<rparr>)))"

subsection \<open>Vectors and strings\<close>

definition StartVector :: "int \<Rightarrow> int \<Rightarrow> int \<Rightarrow> UOffsetT action" where
  "StartVector elemSize numElems alignment b =
     (case assertNotNested b of
        (Panics p, b0) \<Rightarrow> (Panics p, b0)
      | (Returns u, b0) \<Rightarrow>
          (case Prep (int SizeInt32) (elemSize * numElems) (b0\<lparr>nested := True\<rparr>) of
             (Panics p, b1) \<Rightarrow> (Panics p, b1)
           | (Returns u, b1) \<Rightarrow>
               (case Prep alignment (elemSize * numElems) b1 of
                  (Panics p, b2) \<Rightarrow> (Panics p, b2)
                | (Returns u, b2) \<Rightarrow> (Returns (Offset b2), b2))))"

definition EndVector :: "int \<Rightarrow> UOffsetT action" where
  "EndVector vectorNumElems b =
     (case assertNested b of
        (Panics p, b0) \<Rightarrow> (Panics p, b0)
      | (Returns u, b0) \<Rightarrow>
          (case PlaceUOffsetT (of_int vectorNumElems) b0 of
             (Panics p, b1) \<Rightarrow> (Panics p, b1)
           | (Returns u, b1) \<Rightarrow>
               (let b2 = b1\<lparr>nested := False\<rparr> in (Returns (Offset b2), b2))))"

text \<open>
  \<open>b.head -= l; copy(b.Bytes[b.head:b.head+l], s)\<close>: the bounds of the slice are
  32-bit sums, and the slice may reach into the spare capacity. \<open>copy_slice lo hi\<close> is
  the backing array after \<open>copy(whole[lo:hi], s)\<close>.
\<close>

definition copy_slice :: "nat \<Rightarrow> nat \<Rightarrow> 'a list \<Rightarrow> 'a list \<Rightarrow> 'a list" where
  "copy_slice lo hi whole s =
     take lo whole @ copy_into (take (hi - lo) (drop lo whole)) s @ drop hi whole"

definition copy_at_head :: "byte list \<Rightarrow> unit action" where
  "copy_at_head s b =
     (let l = (of_nat (length s) :: UOffsetT);
          b1 = b\<lparr>head := head b - l\<rparr>;
          lo = unat (head b1);
          hi = unat (head b1 + l);
          whole = Bytes b1 @ spare b1
      in if \<not> (lo \<le> hi \<and> hi \<le> length whole) then (Panics RuntimeError, b1)
         else
           let whole' = copy_slice lo hi whole s
           in (Returns (),
               b1\<lparr>Bytes := take (length (Bytes b1)) whole',
                   spare := drop (length (Bytes b1)) whole'\<rparr>))"

definition CreateByteString :: "byte list \<Rightarrow> UOffsetT action" where
  "CreateByteString s b =
     (case assertNotNested b of
        (Panics p, b0) \<Rightarrow> (Panics p, b0)
      | (Returns u, b0) \<Rightarrow>
          (case Prep (int SizeUOffsetT) ((int (length s) + 1) * int SizeByte)
                  (b0\<lparr>nested := True\<rparr>) of
             (Panics p, b1) \<Rightarrow> (Panics p, b1)
           | (Returns u, b1) \<Rightarrow>
               (case PlaceByte 0 b1 of
                  (Panics p, b2) \<Rightarrow> (Panics p, b2)
                | (Returns u, b2) \<Rightarrow>
                    (case copy_at_head s b2 of
                       (Panics p, b3) \<Rightarrow> (Panics p, b3)
                     | (Returns u, b3) \<Rightarrow> EndVector (int (length s)) b3))))"

text \<open>A Go string is its bytes: \<open>CreateString\<close> has the body of \<open>CreateByteString\<close>.\<close>

definition CreateString :: "byte list \<Rightarrow> UOffsetT action" where
  "CreateString s = CreateByteString s"

subsection \<open>Finishing\<close>

definition Finish :: "UOffsetT \<Rightarrow> unit action" where
  "Finish rootTable b =
     (case assertNotNested b of
        (Panics p, b0) \<Rightarrow> (Panics p, b0)
      | (Returns u, b0) \<Rightarrow>
          (case Prep (minalign b0) (int SizeUOffsetT) b0 of
             (Panics p, b1) \<Rightarrow> (Panics p, b1)
           | (Returns u, b1) \<Rightarrow>
               (case PrependUOffsetT rootTable b1 of
                  (Panics p, b2) \<Rightarrow> (Panics p, b2)
                | (Returns u, b2) \<Rightarrow> (Returns (), b2\<lparr>finished := True\<rparr>))))"

definition FinishedBytes :: "(byte list) action" where
  "FinishedBytes b =
     (case assertFinished b of
        (Panics p, b0) \<Rightarrow> (Panics p, b0)
      | (Returns u, b0) \<Rightarrow>
          if unat (Head b0) \<le> length (Bytes b0)
          then (Returns (drop (unat (Head b0)) (Bytes b0)), b0)
          else (Panics RuntimeError, b0))"

section \<open>The table reader\<close>

text \<open>
  The struct \<open>Table\<close>. Its byte slice is taken without spare capacity. A getter is a
  pure function of the table; a mutator returns its boolean and the table it leaves.
\<close>

record Table =
  tBytes :: "byte list"
  Pos :: UOffsetT

definition Table_Offset :: "Table \<Rightarrow> VOffsetT \<Rightarrow> VOffsetT outcome" where
  "Table_Offset t vtableOffset =
     (case get_at SizeSOffsetT (tBytes t) (unat (Pos t)) of
        Panics p \<Rightarrow> Panics p
      | Returns (soff :: SOffsetT) \<Rightarrow>
          (let vt = Pos t - soff in
           case get_at SizeVOffsetT (tBytes t) (unat vt) of
             Panics p \<Rightarrow> Panics p
           | Returns (vtLen :: VOffsetT) \<Rightarrow>
               if vtableOffset < vtLen
               then get_at SizeVOffsetT (tBytes t) (unat (vt + ucast vtableOffset))
               else Returns 0))"

definition Indirect :: "Table \<Rightarrow> UOffsetT \<Rightarrow> UOffsetT outcome" where
  "Indirect t off =
     (case get_at SizeUOffsetT (tBytes t) (unat off) of
        Panics p \<Rightarrow> Panics p
      | Returns (r :: UOffsetT) \<Rightarrow> Returns (off + r))"

definition ByteVector :: "Table \<Rightarrow> UOffsetT \<Rightarrow> (byte list) outcome" where
  "ByteVector t off0 =
     (case get_at SizeUOffsetT (tBytes t) (unat off0) of
        Panics p \<Rightarrow> Panics p
      | Returns (r :: UOffsetT) \<Rightarrow>
          (let off = off0 + r in
           case get_at SizeUOffsetT (tBytes t) (unat off) of
             Panics p \<Rightarrow> Panics p
           | Returns (len :: UOffsetT) \<Rightarrow>
               (let start = off + of_nat SizeUOffsetT in
                if unat start \<le> unat (start + len) \<and> unat (start + len) \<le> length (tBytes t)
                then Returns (take (unat (start + len) - unat start)
                                (drop (unat start) (tBytes t)))
                else Panics RuntimeError)))"

definition String :: "Table \<Rightarrow> UOffsetT \<Rightarrow> (byte list) outcome" where
  "String t off = ByteVector t off"

definition VectorLen :: "Table \<Rightarrow> UOffsetT \<Rightarrow> int outcome" where
  "VectorLen t off0 =
     (let off1 = off0 + Pos t in
      case get_at SizeUOffsetT (tBytes t) (unat off1) of
        Panics p \<Rightarrow> Panics p
      | Returns (r :: UOffsetT) \<Rightarrow>
          (case get_at SizeUOffsetT (tBytes t) (unat (off1 + r)) of
             Panics p \<Rightarrow> Panics p
           | Returns (len :: UOffsetT) \<Rightarrow> Returns (int (unat len))))"

definition Vector :: "Table \<Rightarrow> UOffsetT \<Rightarrow> UOffsetT outcome" where
  "Vector t off0 =
     (let off1 = off0 + Pos t in
      case get_at SizeUOffsetT (tBytes t) (unat off1) of
        Panics p \<Rightarrow> Panics p
      | Returns (r :: UOffsetT) \<Rightarrow> Returns (off1 + r + of_nat SizeUOffsetT))"

text \<open>\<open>GetT\<close>, \<open>GetTSlot\<close>, \<open>MutateT\<close> and \<open>MutateTSlot\<close> for the integer types \<open>T\<close>.\<close>

definition Get :: "nat \<Rightarrow> Table \<Rightarrow> UOffsetT \<Rightarrow> ('a::len word) outcome" where
  "Get k t off = get_at k (tBytes t) (unat off)"

definition GetSlot :: "nat \<Rightarrow> Table \<Rightarrow> VOffsetT \<Rightarrow> 'a::len word \<Rightarrow> ('a word) outcome" where
  "GetSlot k t slot d =
     (case Table_Offset t slot of
        Panics p \<Rightarrow> Panics p
      | Returns off \<Rightarrow> if off = 0 then Returns d else Get k t (Pos t + ucast off))"

definition GetByteSlot :: "Table \<Rightarrow> VOffsetT \<Rightarrow> byte \<Rightarrow> byte outcome" where
  "GetByteSlot = GetSlot SizeByte"

definition GetInt16Slot :: "Table \<Rightarrow> VOffsetT \<Rightarrow> 16 word \<Rightarrow> (16 word) outcome" where
  "GetInt16Slot = GetSlot SizeInt16"

definition GetInt32Slot :: "Table \<Rightarrow> VOffsetT \<Rightarrow> 32 word \<Rightarrow> (32 word) outcome" where
  "GetInt32Slot = GetSlot SizeInt32"

definition GetInt64Slot :: "Table \<Rightarrow> VOffsetT \<Rightarrow> 64 word \<Rightarrow> (64 word) outcome" where
  "GetInt64Slot = GetSlot SizeInt64"

definition GetBoolSlot :: "Table \<Rightarrow> VOffsetT \<Rightarrow> bool \<Rightarrow> bool outcome" where
  "GetBoolSlot t slot d =
     (case Table_Offset t slot of
        Panics p \<Rightarrow> Panics p
      | Returns off \<Rightarrow>
          if off = 0 then Returns d
          else (case (Get SizeByte t (Pos t + ucast off) :: byte outcome) of
                  Panics p \<Rightarrow> Panics p
                | Returns v \<Rightarrow> Returns (v = 1)))"

definition Mutate :: "nat \<Rightarrow> Table \<Rightarrow> UOffsetT \<Rightarrow> 'a::len word \<Rightarrow> (bool \<times> Table) outcome" where
  "Mutate k t off n =
     (case put_at k (tBytes t) (unat off) n of
        Panics p \<Rightarrow> Panics p
      | Returns bs \<Rightarrow> Returns (True, t\<lparr>tBytes := bs\<rparr>))"

definition MutateSlot :: "nat \<Rightarrow> Table \<Rightarrow> VOffsetT \<Rightarrow> 'a::len word \<Rightarrow> (bool \<times> Table) outcome" where
  "MutateSlot k t slot n =
     (case Table_Offset t slot of
        Panics p \<Rightarrow> Panics p
      | Returns off \<Rightarrow>
          if off \<noteq> 0
          then (case Mutate k t (Pos t + ucast off) n of
                  Panics p \<Rightarrow> Panics p
                | Returns r \<Rightarrow> Returns (True, snd r))
          else Returns (False, t))"

definition MutateInt32Slot :: "Table \<Rightarrow> VOffsetT \<Rightarrow> 32 word \<Rightarrow> (bool \<times> Table) outcome" where
  "MutateInt32Slot = MutateSlot SizeInt32"

section \<open>Auxiliary notions for the properties\<close>

text \<open>Two byte ranges, each given by its start and length, that do not overlap.\<close>

definition apart :: "nat \<Rightarrow> nat \<Rightarrow> nat \<Rightarrow> nat \<Rightarrow> bool" where
  "apart a la c lc = (a + la \<le> c \<or> c + lc \<le> a)"

text \<open>The position of the vtable that \<open>Table.Offset\<close> computes.\<close>

definition table_vtable :: "Table \<Rightarrow> UOffsetT" where
  "table_vtable t =
     (case get_at SizeSOffsetT (tBytes t) (unat (Pos t)) of
        Panics p \<Rightarrow> 0
      | Returns (soff :: SOffsetT) \<Rightarrow> Pos t - soff)"

text \<open>
  The \<open>k\<close> bytes of the field that \<open>Table.Offset\<close> gave as \<open>off\<close> lie inside the buffer
  and away from the three places \<open>Table.Offset\<close> reads: the table's vtable pointer, the
  vtable's length and the vtable's entry for the slot.
\<close>

definition field_apart :: "nat \<Rightarrow> Table \<Rightarrow> VOffsetT \<Rightarrow> VOffsetT \<Rightarrow> bool" where
  "field_apart k t slot off =
     (let f = unat (Pos t + ucast off) in
      f + k \<le> length (tBytes t) \<and>
      apart f k (unat (Pos t)) SizeSOffsetT \<and>
      apart f k (unat (table_vtable t)) SizeVOffsetT \<and>
      apart f k (unat (table_vtable t + ucast slot)) SizeVOffsetT)"

text \<open>The bytes written so far: \<open>b.Bytes[b.head:]\<close>.\<close>

definition written :: "Builder \<Rightarrow> byte list" where
  "written b = drop (unat (head b)) (Bytes b)"

text \<open>
  A builder as the methods keep it: the cursor lies inside a buffer of less than
  \<open>2^31\<close> bytes and \<open>minalign\<close> is at least 1.
\<close>

definition wellformed :: "Builder \<Rightarrow> bool" where
  "wellformed b =
     (unat (head b) \<le> length (Bytes b) \<and> length (Bytes b) < 2 ^ 31 \<and> 1 \<le> minalign b)"

text \<open>
  \<open>b'\<close> is \<open>b\<close> with the bytes \<open>bs\<close> written in front of its data and nothing else
  changed but the free space and \<open>minalign\<close>, which did not decrease.
\<close>

definition grows_by :: "byte list \<Rightarrow> Builder \<Rightarrow> Builder \<Rightarrow> bool" where
  "grows_by bs b b' =
     (wellformed b' \<and> written b' = bs @ written b \<and> vtable b' = vtable b \<and>
      objectEnd b' = objectEnd b \<and> vtables b' = vtables b \<and> nested b' = nested b \<and>
      finished b' = finished b \<and> minalign b \<le> minalign b')"

text \<open>The padding that aligns \<open>n\<close> bytes of data to a multiple of \<open>sz\<close>.\<close>

definition pad_for :: "int \<Rightarrow> nat \<Rightarrow> nat" where
  "pad_for sz n = nat ((- int n) mod sz)"

text \<open>
  What \<open>WriteVtable\<close> stores for a field recorded at \<open>v\<close> of an object at
  \<open>objectOffset\<close>, and the bytes of a whole vtable.
\<close>

definition entry_of :: "UOffsetT \<Rightarrow> UOffsetT \<Rightarrow> VOffsetT" where
  "entry_of objectOffset v = ucast (if v \<noteq> 0 then objectOffset - v else 0)"

definition entries_bytes :: "UOffsetT \<Rightarrow> UOffsetT list \<Rightarrow> byte list" where
  "entries_bytes objectOffset vt =
     concat (map (\<lambda>v. le_bytes SizeVOffsetT (entry_of objectOffset v)) vt)"

definition vtable_bytes :: "UOffsetT \<Rightarrow> UOffsetT \<Rightarrow> UOffsetT list \<Rightarrow> byte list" where
  "vtable_bytes objectOffset objEnd vt =
     le_bytes SizeVOffsetT
       (of_nat ((length vt + VtableMetadataFields) * SizeVOffsetT) :: VOffsetT) @
     le_bytes SizeVOffsetT (ucast (objectOffset - objEnd) :: VOffsetT) @
     entries_bytes objectOffset vt"

text \<open>The working vtable without its trailing zeros.\<close>

definition trimmed :: "UOffsetT list \<Rightarrow> UOffsetT list" where
  "trimmed vt = take (trim_loop (length vt) vt) vt"

text \<open>
  Call sequences, for the nesting protocol. A scalar argument is carried in 64 bits and
  written with its width \<open>k\<close>; results of the calls are dropped.
\<close>

datatype call =
    StartObject_call int
  | PrependSlot_call nat int "64 word" "64 word"
  | EndObject_call
  | StartVector_call int int int
  | Prepend_call nat "64 word"
  | EndVector_call int
  | CreateString_call "byte list"
  | Finish_call UOffsetT
  | FinishedBytes_call

definition forget :: "'a outcome \<times> Builder \<Rightarrow> unit outcome \<times> Builder" where
  "forget r = (case r of (Returns a, b) \<Rightarrow> (Returns (), b) | (Panics p, b) \<Rightarrow> (Panics p, b))"

fun perform :: "call \<Rightarrow> unit action" where
  "perform (StartObject_call n) b = StartObject n b"
| "perform (PrependSlot_call k slotnum x d) b = PrependSlot k slotnum x d b"
| "perform EndObject_call b = forget (EndObject b)"
| "perform (StartVector_call elemSize numElems alignment) b =
     forget (StartVector elemSize numElems alignment b)"
| "perform (Prepend_call k x) b = Prepend k x b"
| "perform (EndVector_call n) b = forget (EndVector n b)"
| "perform (CreateString_call s) b = forget (CreateString s b)"
| "perform (Finish_call root) b = Finish root b"
| "perform FinishedBytes_call b = forget (FinishedBytes b)"

fun run :: "call list \<Rightarrow> unit action" where
  "run [] b = (Returns (), b)"
| "run (c # cs) b =
     (case perform c b of
        (Returns u, b1) \<Rightarrow> run cs b1
      | (Panics p, b1) \<Rightarrow> (Panics p, b1))"

text \<open>
  The well-formed sequences: every start is matched by its end before the next start,
  slots are filled inside an object and elements written inside a vector, \<open>Finish\<close>
  comes when nothing is open and \<open>FinishedBytes\<close> after a \<open>Finish\<close>.
\<close>

datatype mode = Idle | InObject | InVector

definition step_mode :: "mode \<Rightarrow> bool \<Rightarrow> call \<Rightarrow> (mode \<times> bool) option" where
  "step_mode m fin c =
     (case c of
        StartObject_call n \<Rightarrow> if m = Idle then Some (InObject, fin) else None
      | PrependSlot_call k slotnum x d \<Rightarrow> if m = InObject then Some (InObject, fin) else None
      | EndObject_call \<Rightarrow> if m = InObject then Some (Idle, fin) else None
      | StartVector_call e n a \<Rightarrow> if m = Idle then Some (InVector, fin) else None
      | Prepend_call k x \<Rightarrow> if m = InVector then Some (InVector, fin) else None
      | EndVector_call n \<Rightarrow> if m = InVector then Some (Idle, fin) else None
      | CreateString_call s \<Rightarrow> if m = Idle then Some (Idle, fin) else None
      | Finish_call root \<Rightarrow> if m = Idle then Some (Idle, True) else None
      | FinishedBytes_call \<Rightarrow> if m = Idle \<and> fin then Some (Idle, fin) else None)"

fun protocol :: "mode \<Rightarrow> bool \<Rightarrow> call list \<Rightarrow> bool" where
  "protocol m fin [] = True"
| "protocol m fin (c # cs) =
     (case step_mode m fin c of
        None \<Rightarrow> False
      | Some (m', fin') \<Rightarrow> protocol m' fin' cs)"

text \<open>The three panics of the nesting and finish protocol.\<close>

fun is_protocol_panic :: "panic \<Rightarrow> bool" where
  "is_protocol_panic MustBeInsideObject = True"
| "is_protocol_panic MustNotBeNested = True"
| "is_protocol_panic MustCallFinishFirst = True"
| "is_protocol_panic p = False"

definition protocol_panic :: "'a outcome \<Rightarrow> bool" where
  "protocol_panic r = (case r of Returns a \<Rightarrow> False | Panics p \<Rightarrow> is_protocol_panic p)"

text \<open>
  A method that raises none of the three and leaves \<open>nested\<close> and \<open>finished\<close> alone.
\<close>

definition benign :: "'a action \<Rightarrow> bool" where
  "benign m =
     (\<forall>b. \<not> protocol_panic (fst (m b)) \<and> nested (snd (m b)) = nested b \<and>
          finished (snd (m b)) = finished b)"







section \<open>Properties\<close>

subsection \<open>The capacity test\<close>

lemma cap_mask_eq: "(k::int) AND 0xC0000000 = push_bit 30 (take_bit 2 (drop_bit 30 k))"
proof -
  have c: "(0xC0000000::int) = push_bit 30 (mask 2)"
    by (simp add: mask_eq_exp_minus_1 push_bit_eq_mult)
  show ?thesis unfolding c
    by (rule bit_eqI) (auto simp: bit_simps)
qed

lemma cap_test_iff: "((k::int) AND 0xC0000000 = 0) = ((k div 2 ^ 30) mod 4 = 0)"
  unfolding cap_mask_eq
  by (simp add: push_bit_eq_mult take_bit_eq_mod drop_bit_eq_div)

lemma cap_test_nat: "(int n AND 0xC0000000 = 0) = ((n div 2 ^ 30) mod 4 = 0)"
proof -
  have "int ((n div 2 ^ 30) mod 4) = (int n div 2 ^ 30) mod 4"
    by (simp add: of_nat_div of_nat_mod)
  then have "((int n div 2 ^ 30) mod 4 = 0) = ((n div 2 ^ 30) mod 4 = 0)"
    by (metis of_nat_eq_0_iff)
  then show ?thesis by (simp only: cap_test_iff)
qed

lemma below_limit: "n < 2 ^ 30 \<Longrightarrow> int n AND 0xC0000000 = 0"
  by (simp add: cap_test_nat)

lemma limit_small: "int n AND 0xC0000000 = 0 \<Longrightarrow> n < 2 ^ 31 \<Longrightarrow> n < 2 ^ 30"
proof (rule ccontr)
  assume a: "int n AND 0xC0000000 = 0" and b: "n < 2 ^ 31" and c: "\<not> n < 2 ^ 30"
  from b c have "n div 2 ^ 30 = 1" by (simp add: div_nat_eqI)
  with a show False by (simp add: cap_test_nat)
qed


subsection \<open>Growth\<close>

lemma grown_Bytes_nonempty: "Bytes b \<noteq> [] \<Longrightarrow> Bytes (grown b) = Bytes b @ Bytes b"
  unfolding grown_def Let_def copy_into_def
  by (cases "length (Bytes b) \<le> length (spare b)") (simp_all add: min_def)

lemma grown_Bytes_empty: "Bytes b = [] \<Longrightarrow> length (Bytes (grown b)) = 1"
  unfolding grown_def Let_def copy_into_def
  by (cases "spare b") (simp_all add: min_def)

lemma grown_length: "length (Bytes (grown b)) = (if Bytes b = [] then 1 else 2 * length (Bytes b))"
  by (simp add: grown_Bytes_nonempty grown_Bytes_empty)

lemma grown_frame:
  "head (grown b) = head b" "minalign (grown b) = minalign b" "vtable (grown b) = vtable b"
  "objectEnd (grown b) = objectEnd b" "vtables (grown b) = vtables b"
  "nested (grown b) = nested b" "finished (grown b) = finished b"
  unfolding grown_def Let_def by simp_all

lemma grow_returns:
  assumes "growByteBuffer b = (Returns u, b')"
  shows "b' = grown b" and "int (length (Bytes b)) AND 0xC0000000 = 0"
  using assms unfolding growByteBuffer_def by (simp_all split: if_split_asm)

lemma grow_panics:
  assumes "growByteBuffer b = (Panics p, b')"
  shows "b' = b"
  using assms unfolding growByteBuffer_def by (simp split: if_split_asm)

lemma grow_below_limit:
  assumes "length (Bytes b) < 2 ^ 30"
  shows "growByteBuffer b = (Returns (), grown b)"
proof -
  have "int (length (Bytes b)) AND 0xC0000000 = 0"
    using assms by (rule below_limit)
  moreover have "\<not> 2 ^ 62 \<le> int (length (Bytes b))"
    using assms by simp
  ultimately show ?thesis
    unfolding growByteBuffer_def by (simp only: if_False simp_thms)
qed

text \<open>
  C3. Default elision on the write side: \<open>PrependTSlot(o, x, d)\<close> with \<open>x = d\<close> returns
  and leaves the whole builder as it was, so the bytes, the head cursor, the offset and
  the working vtable (entry \<open>o\<close> included) are unchanged. Stated for every integer
  width, for \<open>PrependInt16Slot\<close> by name and for \<open>PrependBoolSlot\<close>.
\<close>

theorem default_elision_writes_nothing:
  "PrependSlot k slotnum d d b = (Returns (), b) \<and>
   PrependInt16Slot slotnum d16 d16 b = (Returns (), b) \<and>
   PrependBoolSlot slotnum db db b = (Returns (), b)"
  by (simp add: PrependSlot_def PrependInt16Slot_def PrependBoolSlot_def PrependByteSlot_def)

text \<open>
  C6. Growth preserves data: when \<open>growByteBuffer\<close> returns on a non-empty buffer, the
  buffer is twice as long and, for every distance \<open>d\<close> up to the old length, the \<open>d\<close>
  bytes at the end of the buffer are the \<open>d\<close> bytes that were at its end before; hence
  each single byte keeps its distance from the end. Below \<open>2^30\<close> bytes it does return.
\<close>

theorem growth_preserves_data:
  assumes "Bytes b \<noteq> []" and "growByteBuffer b = (Returns u, b')"
  shows "length (Bytes b') = 2 * length (Bytes b) \<and>
         (\<forall>d. d \<le> length (Bytes b) \<longrightarrow>
              drop (length (Bytes b') - d) (Bytes b') = drop (length (Bytes b) - d) (Bytes b)) \<and>
         (\<forall>d. 1 \<le> d \<and> d \<le> length (Bytes b) \<longrightarrow>
              Bytes b' ! (length (Bytes b') - d) = Bytes b ! (length (Bytes b) - d))"
proof -
  have b': "Bytes b' = Bytes b @ Bytes b"
    using assms grow_returns(1) grown_Bytes_nonempty by blast
  show ?thesis
    unfolding b' by (auto simp: nth_append)
qed

theorem growth_preserves_data_witness:
  "Bytes (NewBuilder 2) \<noteq> [] \<and>
   growByteBuffer (NewBuilder 2) = (Returns (), grown (NewBuilder 2)) \<and>
   length (Bytes (grown (NewBuilder 2))) = 2 * length (Bytes (NewBuilder 2)) \<and>
   drop (length (Bytes (grown (NewBuilder 2))) - 2) (Bytes (grown (NewBuilder 2)))
     = drop (length (Bytes (NewBuilder 2)) - 2) (Bytes (NewBuilder 2))"
proof -
  have ne: "Bytes (NewBuilder 2) \<noteq> []"
    by (simp add: NewBuilder_def)
  have g: "growByteBuffer (NewBuilder 2) = (Returns (), grown (NewBuilder 2))"
    by (rule grow_below_limit) (simp add: NewBuilder_def)
  have l: "(2::nat) \<le> length (Bytes (NewBuilder 2))"
    by (simp add: NewBuilder_def)
  from growth_preserves_data [OF ne g] l ne g show ?thesis
    by blast
qed




subsection \<open>Little-endian bytes\<close>

lemma length_le_bytes: "length (le_bytes k w) = k"
  by (simp add: le_bytes_def)

lemma bit_le_bytes_nth:
  "i < k \<Longrightarrow> bit (le_bytes k (w :: 'a::len word) ! i) j = (j < 8 \<and> bit w (8 * i + j))"
  by (auto simp: le_bytes_def bit_ucast_iff bit_drop_bit_eq dest: bit_imp_le_length)

lemma le_word_Nil: "le_word [] = 0"
  by (simp add: le_word_def)

lemma le_word_Cons: "le_word (b # bs) = ucast b OR push_bit 8 (le_word bs)"
  by (simp add: le_word_def)

lemma bit_le_word:
  "bit (le_word bs :: 'a::len word) n =
     (n < LENGTH('a) \<and> n div 8 < length bs \<and> bit (bs ! (n div 8)) (n mod 8))"
proof (induction bs arbitrary: n)
  case Nil
  show ?case by (simp add: le_word_Nil)
next
  case (Cons b bs)
  show ?case
  proof (cases "n < 8")
    case True
    then show ?thesis
      by (auto simp: le_word_Cons bit_or_iff bit_ucast_iff bit_push_bit_iff dest: bit_imp_le_length)
  next
    case False
    then have d: "n div 8 = Suc ((n - 8) div 8)" and m: "n mod 8 = (n - 8) mod 8"
      by (simp_all add: le_div_geq le_mod_geq)
    have "\<not> bit b n"
      using False by (auto dest: bit_imp_le_length)
    with False show ?thesis
      by (auto simp: le_word_Cons bit_or_iff bit_ucast_iff bit_push_bit_iff Cons.IH d m
               dest: bit_imp_le_length)
  qed
qed

lemma le_word_le_bytes:
  assumes "LENGTH('a) \<le> 8 * k"
  shows "le_word (le_bytes k w) = (w :: 'a::len word)"
proof (rule bit_word_eqI)
  fix n assume n: "n < LENGTH('a)"
  with assms have k: "n div 8 < k" by (simp add: less_mult_imp_div_less mult.commute)
  have "8 * (n div 8) + n mod 8 = n" by simp
  with n k show "bit (le_word (le_bytes k w) :: 'a word) n = bit w n"
    by (simp add: bit_le_word length_le_bytes bit_le_bytes_nth)
qed

subsection \<open>Reading and writing at a position\<close>

lemma put_at_Returns:
  "put_at k bs off w = Returns bs' \<Longrightarrow>
     off + k \<le> length bs \<and> bs' = take off bs @ le_bytes k w @ drop (off + k) bs"
  by (simp add: put_at_def split: if_split_asm)

lemma put_at_length: "put_at k bs off w = Returns bs' \<Longrightarrow> length bs' = length bs"
  by (auto simp: put_at_def length_le_bytes split: if_split_asm)

lemma put_at_ok:
  "off + k \<le> length bs \<Longrightarrow>
     put_at k bs off w = Returns (take off bs @ le_bytes k w @ drop (off + k) bs)"
  by (simp add: put_at_def)

lemma get_at_ok:
  "off + k \<le> length bs \<Longrightarrow> get_at k bs off = Returns (le_word (take k (drop off bs)))"
  by (simp add: get_at_def)

lemma get_at_put_at_same:
  assumes "put_at k bs off w = Returns bs'" and "LENGTH('a) \<le> 8 * k"
  shows "get_at k bs' off = Returns (w :: 'a::len word)"
proof -
  from assms(1) have b: "off + k \<le> length bs"
    and bs': "bs' = take off bs @ le_bytes k w @ drop (off + k) bs"
    by (simp_all add: put_at_Returns)
  have "take k (drop off bs') = le_bytes k w"
    using b unfolding bs' by (simp add: length_le_bytes)
  moreover have "off + k \<le> length bs'"
    using b assms(1) by (simp add: put_at_length)
  ultimately show ?thesis
    by (simp add: get_at_def le_word_le_bytes assms(2))
qed

lemma get_at_put_at_other:
  assumes "put_at k bs off w = Returns bs'"
    and "o2 + j \<le> off \<or> off + k \<le> o2"
  shows "get_at j bs' o2 = get_at j bs o2"
proof -
  from assms(1) have b: "off + k \<le> length bs"
    and bs': "bs' = take off bs @ le_bytes k w @ drop (off + k) bs"
    by (simp_all add: put_at_Returns)
  have l: "length bs' = length bs"
    using assms(1) by (rule put_at_length)
  have "take j (drop o2 bs') = take j (drop o2 bs)" if "o2 + j \<le> length bs"
  proof (rule nth_equalityI)
    show "length (take j (drop o2 bs')) = length (take j (drop o2 bs))"
      by (simp add: l)
  next
    fix i assume "i < length (take j (drop o2 bs'))"
    then have i: "i < j" by simp
    have "bs' ! (o2 + i) = bs ! (o2 + i)"
      using assms(2) i b that unfolding bs'
      by (auto simp: nth_append length_le_bytes)
    with i that show "take j (drop o2 bs') ! i = take j (drop o2 bs) ! i"
      by (simp add: l)
  qed
  then show ?thesis
    by (simp add: get_at_def l)
qed

subsection \<open>Mutation in place\<close>

lemma Table_Offset_after_put:
  assumes p: "put_at k (tBytes t) f w = Returns bs"
    and a1: "apart f k (unat (Pos t)) SizeSOffsetT"
    and a2: "apart f k (unat (table_vtable t)) SizeVOffsetT"
    and a3: "apart f k (unat (table_vtable t + ucast slot)) SizeVOffsetT"
    and r: "Table_Offset t slot = Returns off"
  shows "Table_Offset (t\<lparr>tBytes := bs\<rparr>) slot = Returns off"
proof -
  have g1: "(get_at SizeSOffsetT bs (unat (Pos t)) :: SOffsetT outcome) =
            get_at SizeSOffsetT (tBytes t) (unat (Pos t))"
    using p a1 by (intro get_at_put_at_other) (auto simp: apart_def)
  from r obtain soff :: SOffsetT
    where s: "get_at SizeSOffsetT (tBytes t) (unat (Pos t)) = Returns soff"
    by (auto simp: Table_Offset_def split: outcome.splits)
  then have vt: "table_vtable t = Pos t - soff"
    by (simp add: table_vtable_def)
  have g2: "(get_at SizeVOffsetT bs (unat (Pos t - soff)) :: VOffsetT outcome) =
            get_at SizeVOffsetT (tBytes t) (unat (Pos t - soff))"
    using p a2 unfolding vt by (intro get_at_put_at_other) (auto simp: apart_def)
  have g3: "(get_at SizeVOffsetT bs (unat (Pos t - soff + ucast slot)) :: VOffsetT outcome) =
            get_at SizeVOffsetT (tBytes t) (unat (Pos t - soff + ucast slot))"
    using p a3 unfolding vt by (intro get_at_put_at_other) (auto simp: apart_def)
  show ?thesis
    using r by (auto simp: Table_Offset_def g1 s g2 g3 Let_def split: outcome.splits if_splits)
qed

text \<open>
  C5 (as amended). Mutate-slot semantics: if the vtable offset of the slot is 0,
  \<open>MutateTSlot\<close> returns false and leaves the table, hence its bytes, as it was. If it
  is not 0 and the field's bytes lie inside the buffer and away from the table's vtable
  pointer, the vtable's length and the vtable's entry for the slot, \<open>MutateTSlot\<close>
  returns true and \<open>GetTSlot\<close> on the table it leaves returns the new value.
\<close>

theorem mutate_slot_semantics:
  fixes n d :: "'a::len word"
  assumes "LENGTH('a) \<le> 8 * k"
  shows "(Table_Offset t slot = Returns 0 \<longrightarrow> MutateSlot k t slot n = Returns (False, t)) \<and>
         (\<forall>off. Table_Offset t slot = Returns off \<and> off \<noteq> 0 \<and> field_apart k t slot off \<longrightarrow>
            (\<exists>bs. MutateSlot k t slot n = Returns (True, t\<lparr>tBytes := bs\<rparr>) \<and>
                  length bs = length (tBytes t) \<and>
                  GetSlot k (t\<lparr>tBytes := bs\<rparr>) slot d = Returns n))"
proof (intro conjI allI impI)
  assume "Table_Offset t slot = Returns 0"
  then show "MutateSlot k t slot n = Returns (False, t)"
    by (simp add: MutateSlot_def)
next
  fix off
  assume h: "Table_Offset t slot = Returns off \<and> off \<noteq> 0 \<and> field_apart k t slot off"
  let ?f = "unat (Pos t + ucast off)"
  from h have r: "Table_Offset t slot = Returns off" and nz: "off \<noteq> 0"
    and inb: "?f + k \<le> length (tBytes t)"
    and a1: "apart ?f k (unat (Pos t)) SizeSOffsetT"
    and a2: "apart ?f k (unat (table_vtable t)) SizeVOffsetT"
    and a3: "apart ?f k (unat (table_vtable t + ucast slot)) SizeVOffsetT"
    by (simp_all add: field_apart_def Let_def)
  let ?bs = "take ?f (tBytes t) @ le_bytes k n @ drop (?f + k) (tBytes t)"
  have p: "put_at k (tBytes t) ?f n = Returns ?bs"
    using inb by (rule put_at_ok)
  have m: "MutateSlot k t slot n = Returns (True, t\<lparr>tBytes := ?bs\<rparr>)"
    using r nz p by (simp add: MutateSlot_def Mutate_def)
  have o: "Table_Offset (t\<lparr>tBytes := ?bs\<rparr>) slot = Returns off"
    using p a1 a2 a3 r by (rule Table_Offset_after_put)
  have g: "get_at k ?bs ?f = Returns n"
    using p assms by (rule get_at_put_at_same)
  have "GetSlot k (t\<lparr>tBytes := ?bs\<rparr>) slot d = Returns n"
    using o nz g by (simp add: GetSlot_def Get_def)
  moreover have "length ?bs = length (tBytes t)"
    using p by (rule put_at_length)
  ultimately show "\<exists>bs. MutateSlot k t slot n = Returns (True, t\<lparr>tBytes := bs\<rparr>) \<and>
                  length bs = length (tBytes t) \<and>
                  GetSlot k (t\<lparr>tBytes := bs\<rparr>) slot d = Returns n"
    using m by blast
qed

theorem mutate_slot_semantics_witness:
  "LENGTH(32) \<le> 8 * SizeInt32 \<and>
   Table_Offset \<lparr>tBytes = [6, 0, 8, 0, 4, 0, 6, 0, 0, 0, 42, 0, 0, 0], Pos = 6\<rparr> 6 = Returns 0 \<and>
   MutateInt32Slot \<lparr>tBytes = [6, 0, 8, 0, 4, 0, 6, 0, 0, 0, 42, 0, 0, 0], Pos = 6\<rparr> 6 7 =
     Returns (False, \<lparr>tBytes = [6, 0, 8, 0, 4, 0, 6, 0, 0, 0, 42, 0, 0, 0], Pos = 6\<rparr>) \<and>
   Table_Offset \<lparr>tBytes = [6, 0, 8, 0, 4, 0, 6, 0, 0, 0, 42, 0, 0, 0], Pos = 6\<rparr> 4 = Returns 4 \<and>
   field_apart SizeInt32 \<lparr>tBytes = [6, 0, 8, 0, 4, 0, 6, 0, 0, 0, 42, 0, 0, 0], Pos = 6\<rparr> 4 4 \<and>
   (\<exists>bs. MutateInt32Slot \<lparr>tBytes = [6, 0, 8, 0, 4, 0, 6, 0, 0, 0, 42, 0, 0, 0], Pos = 6\<rparr> 4 7 =
            Returns (True, \<lparr>tBytes = bs, Pos = 6\<rparr>) \<and>
         GetInt32Slot \<lparr>tBytes = bs, Pos = 6\<rparr> 4 0 = Returns 7)"
proof -
  let ?t = "\<lparr>tBytes = [6, 0, 8, 0, 4, 0, 6, 0, 0, 0, 42, 0, 0, 0], Pos = 6\<rparr> :: Table"
  have w: "LENGTH(32) \<le> 8 * SizeInt32"
    by (simp add: SizeInt32_def)
  have o0: "Table_Offset ?t 6 = Returns 0"
    by code_simp
  have o4: "Table_Offset ?t 4 = Returns 4"
    by code_simp
  have fa: "field_apart SizeInt32 ?t 4 4"
    by code_simp
  from mutate_slot_semantics [OF w, of ?t 6 7] o0
  have m0: "MutateInt32Slot ?t 6 7 = Returns (False, ?t)"
    by (simp add: MutateInt32Slot_def)
  from mutate_slot_semantics [OF w, of ?t 4 7 0] o4 fa
  have "\<exists>bs. MutateInt32Slot ?t 4 7 = Returns (True, \<lparr>tBytes = bs, Pos = 6\<rparr>) \<and>
             GetInt32Slot \<lparr>tBytes = bs, Pos = 6\<rparr> 4 0 = Returns 7"
    by (auto simp: MutateInt32Slot_def GetInt32Slot_def)
  with w o0 o4 fa m0 show ?thesis
    by blast
qed

text \<open>
  C5 as it was stated fails on a table whose field overlaps its own vtable: here the
  vtable entry of slot 4 is 10 and its four bytes at 10..13 cover the entry itself at
  12..13. \<open>MutateInt32Slot\<close> returns true, yet the entry is now 4 and \<open>GetInt32Slot\<close>
  reads the bytes at 4..7.
\<close>

theorem mutate_slot_counterexample:
  "Table_Offset \<lparr>tBytes = [248, 255, 255, 255, 0, 0, 0, 0, 6, 0, 8, 0, 10, 0], Pos = 0\<rparr> 4 =
     Returns 10 \<and>
   MutateInt32Slot \<lparr>tBytes = [248, 255, 255, 255, 0, 0, 0, 0, 6, 0, 8, 0, 10, 0], Pos = 0\<rparr> 4
       0x40000 =
     Returns (True, \<lparr>tBytes = [248, 255, 255, 255, 0, 0, 0, 0, 6, 0, 0, 0, 4, 0], Pos = 0\<rparr>) \<and>
   GetInt32Slot \<lparr>tBytes = [248, 255, 255, 255, 0, 0, 0, 0, 6, 0, 0, 0, 4, 0], Pos = 0\<rparr> 4 0 =
     Returns 0 \<and>
   GetInt32Slot \<lparr>tBytes = [248, 255, 255, 255, 0, 0, 0, 0, 6, 0, 0, 0, 4, 0], Pos = 0\<rparr> 4 0 \<noteq>
     Returns 0x40000"
  by code_simp

subsection \<open>Placing, padding and preparing\<close>

lemma Place_Returns:
  assumes "Place k x b = (Returns u, b')"
  shows "b' = b\<lparr>head := head b - of_nat k,
                 Bytes := take (unat (head b - of_nat k)) (Bytes b) @ le_bytes k x @
                            drop (unat (head b - of_nat k) + k) (Bytes b)\<rparr>"
    and "unat (head b - of_nat k) + k \<le> length (Bytes b)"
  using assms
  by (auto simp: Place_def Let_def put_at_def split: if_split_asm)

lemma Place_length:
  "Place k x b = (Returns u, b') \<Longrightarrow> length (Bytes b') = length (Bytes b)"
  by (auto simp: Place_def Let_def put_at_def length_le_bytes split: if_split_asm)

lemma Place_head:
  "Place k x b = (Returns u, b') \<Longrightarrow> head b' = head b - of_nat k"
  by (auto simp: Place_def Let_def put_at_def split: if_split_asm)

lemma Pad_loop_Returns:
  "Pad_loop n b = (Returns u, b') \<Longrightarrow>
     head b' = head b - of_nat n \<and> length (Bytes b') = length (Bytes b)"
proof (induction n arbitrary: b)
  case 0
  then show ?case by simp
next
  case (Suc n)
  from Suc.prems obtain b1 where p: "PlaceByte 0 b = (Returns (), b1)"
    and l: "Pad_loop n b1 = (Returns u, b')"
    by (auto split: prod.splits outcome.splits)
  from p have "head b1 = head b - 1" and "length (Bytes b1) = length (Bytes b)"
    by (simp_all add: PlaceByte_def SizeByte_def Place_head Place_length)
  with Suc.IH [OF l] show ?case
    by simp
qed

lemma Prep_loop_Returns:
  "Prep_loop need b = (Returns u, b') \<Longrightarrow>
     need < int (unat (head b')) \<and>
     (\<exists>m. length (Bytes b') = length (Bytes b) + m \<and> head b' = head b + of_nat m)"
proof (induction need b rule: Prep_loop.induct)
  case (1 need b)
  show ?case
  proof (cases "int (unat (head b)) \<le> need")
    case False
    with "1.prems" have "b' = b"
      by (simp add: Prep_loop.simps)
    with False show ?thesis
      by simp
  next
    case True
    with "1.prems" obtain b1 where g: "growByteBuffer b = (Returns (), b1)"
      and l: "Prep_loop need
               (b1\<lparr>head := head b1 + of_int (int (length (Bytes b1)) - int (length (Bytes b)))\<rparr>)
                = (Returns u, b')"
      by (subst (asm) Prep_loop.simps) (auto simp: Let_def split: prod.splits outcome.splits)
    from g have b1: "b1 = grown b"
      by (rule grow_returns)
    obtain j where j: "length (Bytes b1) = length (Bytes b) + j"
      unfolding b1 grown_length by (cases "Bytes b = []") auto
    then have h: "head b1 + of_int (int (length (Bytes b1)) - int (length (Bytes b)))
                   = head b + of_nat j"
      by (simp add: b1 grown_frame)
    from "1.IH" [OF True refl g [symmetric] refl l]
    obtain m where "need < int (unat (head b'))"
      and "length (Bytes b') = length (Bytes b1) + m"
      and "head b' = head b1 + of_int (int (length (Bytes b1)) - int (length (Bytes b))) + of_nat m"
      by auto
    with j h show ?thesis
      by (auto intro!: exI [of _ "j + m"])
  qed
qed

lemma neg_and_pow2:
  assumes "sz \<in> {1, 2, 4, 8}"
  shows "(NOT (x::int) + 1) AND (sz - 1) = (- x) mod sz"
proof -
  have n: "NOT x + 1 = - x"
    by (simp add: not_int_def)
  have "(- x) AND mask 0 = (- x) mod 2 ^ 0" "(- x) AND mask 1 = (- x) mod 2 ^ 1"
       "(- x) AND mask 2 = (- x) mod 2 ^ 2" "(- x) AND mask 3 = (- x) mod 2 ^ 3"
    by (simp_all only: take_bit_eq_mask [symmetric] take_bit_eq_mod)
  then have "(- x) AND 0 = (- x) mod 1" "(- x) AND 1 = (- x) mod 2"
       "(- x) AND 3 = (- x) mod 4" "(- x) AND 7 = (- x) mod 8"
    by (simp_all add: mask_eq_exp_minus_1)
  with assms show ?thesis
    unfolding n by auto
qed

lemma Prep_alignment_aux:
  fixes L H m A e sz :: int
  assumes sz: "sz \<in> {1, 2, 4, 8}" and A: "A = (- (L - H + e)) mod sz"
  shows "(L + m - ((H + m) mod 2 ^ 32 - A) + e) mod sz = 0"
proof -
  have d: "sz dvd 2 ^ 32"
    using sz by auto
  have "(H + m) mod 2 ^ 32 = H + m - 2 ^ 32 * ((H + m) div 2 ^ 32)"
    by (simp add: minus_mult_div_eq_mod)
  then have e: "L + m - ((H + m) mod 2 ^ 32 - A) + e =
                 (L - H + e + A) + 2 ^ 32 * ((H + m) div 2 ^ 32)"
    by simp
  have "sz dvd (L - H + e) + (- (L - H + e)) mod sz"
    by (metis dvd_eq_mod_eq_0 mod_add_right_eq add.right_inverse mod_0)
  then have "sz dvd L - H + e + A"
    by (simp add: A)
  moreover have "sz dvd 2 ^ 32 * ((H + m) div 2 ^ 32)"
    using d by (rule dvd_mult2)
  ultimately have "sz dvd (L - H + e + A) + 2 ^ 32 * ((H + m) div 2 ^ 32)"
    by (rule dvd_add)
  then show ?thesis
    unfolding e by (simp add: dvd_eq_mod_eq_0)
qed

lemma Prep_Returns:
  assumes "Prep sz additionalBytes b = (Returns u, b')"
  obtains b2 A m where
    "A = (NOT (int (length (Bytes b)) - int (unat (head b)) + additionalBytes) + 1) AND (sz - 1)"
    "A + sz + additionalBytes < int (unat (head b2))"
    "length (Bytes b2) = length (Bytes b) + m" "head b2 = head b + of_nat m"
    "Pad_loop (nat A) b2 = (Returns u, b')"
proof -
  let ?b1 = "if sz > minalign b then b\<lparr>minalign := sz\<rparr> else b"
  let ?A = "(NOT (int (length (Bytes b)) - int (unat (head b)) + additionalBytes) + 1) AND (sz - 1)"
  have s: "Bytes ?b1 = Bytes b" "head ?b1 = head b"
    by simp_all
  from assms obtain b2 where l: "Prep_loop (?A + sz + additionalBytes) ?b1 = (Returns (), b2)"
    and p: "Pad ?A b2 = (Returns u, b')"
    unfolding Prep_def Let_def Head_def s
    by (auto split: prod.splits outcome.splits)
  from Prep_loop_Returns [OF l] obtain m where
    "?A + sz + additionalBytes < int (unat (head b2))"
    "length (Bytes b2) = length (Bytes b) + m" "head b2 = head b + of_nat m"
    unfolding s by auto
  with p that show ?thesis
    unfolding Pad_def by blast
qed

text \<open>
  C4 (as amended). Prep alignment: for every builder state, every \<open>size\<close> in
  \<open>{1, 2, 4, 8}\<close> and every \<open>additionalBytes \<ge> 0\<close>, after \<open>Prep(size, additionalBytes)\<close>
  returns, the distance from the write cursor to the buffer end plus
  \<open>additionalBytes\<close> is a multiple of \<open>size\<close>: the value written after those bytes is
  aligned, not the cursor itself.
\<close>

theorem Prep_aligns_after_additional_bytes:
  assumes sz: "sz \<in> {1, 2, 4, 8}" and e: "0 \<le> additionalBytes"
    and r: "Prep sz additionalBytes b = (Returns u, b')"
  shows "(int (length (Bytes b')) - int (unat (head b')) + additionalBytes) mod sz = 0"
proof -
  from r obtain b2 A m where
    A0: "A = (NOT (int (length (Bytes b)) - int (unat (head b)) + additionalBytes) + 1) AND (sz - 1)"
    and room: "A + sz + additionalBytes < int (unat (head b2))"
    and len2: "length (Bytes b2) = length (Bytes b) + m" and head2: "head b2 = head b + of_nat m"
    and pad: "Pad_loop (nat A) b2 = (Returns u, b')"
    by (rule Prep_Returns)
  have A: "A = (- (int (length (Bytes b)) - int (unat (head b)) + additionalBytes)) mod sz"
    unfolding A0 using sz by (rule neg_and_pow2)
  have sz0: "0 < sz" using sz by auto
  have A_bounds: "0 \<le> A" "A < sz"
    unfolding A using sz0 by simp_all
  define n where "n = nat A"
  have nA: "int n = A"
    using A_bounds by (simp add: n_def)
  from Pad_loop_Returns [OF pad]
  have head': "head b' = head b2 - of_nat n" and len': "length (Bytes b') = length (Bytes b2)"
    by (simp_all add: n_def)
  have small: "n < 2 ^ 32"
    using A_bounds sz nA by auto
  have uA: "unat (of_nat n :: 32 word) = n"
    using small by (simp add: unat_of_nat)
  have nle: "n \<le> unat (head b2)"
    using room A_bounds sz0 e nA by linarith
  then have le: "(of_nat n :: 32 word) \<le> head b2"
    unfolding word_le_nat_alt uA .
  have "unat (head b') = unat (head b2) - n"
    unfolding head' using le by (simp only: unat_sub uA)
  with nle have H': "int (unat (head b')) = int (unat (head b2)) - A"
    using nA by linarith
  have "unat (head b2) = (unat (head b) + m) mod 2 ^ 32"
    unfolding head2 by (simp add: unat_word_ariths unat_of_nat mod_add_right_eq)
  then have H2: "int (unat (head b2)) = (int (unat (head b)) + int m) mod 2 ^ 32"
    by (simp add: of_nat_mod)
  have "(int (length (Bytes b)) + int m - ((int (unat (head b)) + int m) mod 2 ^ 32 - A)
          + additionalBytes) mod sz = 0"
    using sz A by (rule Prep_alignment_aux)
  then show ?thesis
    by (simp only: H' H2 len' len2 of_nat_add)
qed

theorem Prep_aligns_after_additional_bytes_witness:
  "(4::int) \<in> {1, 2, 4, 8} \<and> (0::int) \<le> 1 \<and>
   Prep 4 1 (NewBuilder 0) =
     (Returns (), \<lparr>Bytes = [0, 0, 0, 0, 0, 0, 0, 0, 0, 0, 0, 0, 0, 0, 0, 0], spare = [],
                    minalign = 4, vtable = [], objectEnd = 0, vtables = [], head = 13,
                    nested = False, finished = False\<rparr>) \<and>
   (int (length (Bytes \<lparr>Bytes = [0, 0, 0, 0, 0, 0, 0, 0, 0, 0, 0, 0, 0, 0, 0, 0], spare = [],
                    minalign = 4, vtable = [], objectEnd = 0, vtables = [], head = 13,
                    nested = False, finished = False\<rparr>))
      - int (unat (head \<lparr>Bytes = [0, 0, 0, 0, 0, 0, 0, 0, 0, 0, 0, 0, 0, 0, 0, 0], spare = [],
                    minalign = 4, vtable = [], objectEnd = 0, vtables = [], head = 13 :: UOffsetT,
                    nested = False, finished = False\<rparr>)) + 1) mod 4 = 0"
proof -
  have s: "(4::int) \<in> {1, 2, 4, 8}" and e: "(0::int) \<le> 1"
    by simp_all
  have r: "Prep 4 1 (NewBuilder 0) =
     (Returns (), \<lparr>Bytes = [0, 0, 0, 0, 0, 0, 0, 0, 0, 0, 0, 0, 0, 0, 0, 0], spare = [],
                    minalign = 4, vtable = [], objectEnd = 0, vtables = [], head = 13,
                    nested = False, finished = False\<rparr>)"
    by code_simp
  from Prep_aligns_after_additional_bytes [OF s e r] s e r show ?thesis
    by blast
qed

text \<open>
  C4 as it was stated fails whenever \<open>additionalBytes\<close> is not a multiple of \<open>size\<close>:
  after \<open>Prep(4, 1)\<close> on a new builder the buffer has 16 bytes and the cursor is at 13,
  at distance 3 from the end.
\<close>

theorem Prep_alignment_counterexample:
  "Prep 4 1 (NewBuilder 0) =
     (Returns (), \<lparr>Bytes = [0, 0, 0, 0, 0, 0, 0, 0, 0, 0, 0, 0, 0, 0, 0, 0], spare = [],
                    minalign = 4, vtable = [], objectEnd = 0, vtables = [], head = 13,
                    nested = False, finished = False\<rparr>) \<and>
   (int (length [0 :: byte, 0, 0, 0, 0, 0, 0, 0, 0, 0, 0, 0, 0, 0, 0, 0])
      - int (unat (13 :: UOffsetT))) mod 4 \<noteq> 0"
  by code_simp

subsection \<open>Well-formed builders\<close>

lemma wellformed_NewBuilder: "0 \<le> n \<Longrightarrow> n < 2 ^ 31 \<Longrightarrow> wellformed (NewBuilder n)"
proof -
  assume n: "0 \<le> n" "n < 2 ^ 31"
  then have "nat n < 2 ^ 31" by simp
  moreover have "unat (of_int n :: 32 word) = nat n"
    using n by (simp add: unat_eq_nat_uint uint_word_of_int)
  ultimately show ?thesis
    using n by (simp add: wellformed_def NewBuilder_def Let_def)
qed

lemma length_written:
  "wellformed b \<Longrightarrow> length (written b) = length (Bytes b) - unat (head b)"
  by (simp add: written_def)

lemma written_small: "wellformed b \<Longrightarrow> length (written b) < 2 ^ 31"
  by (simp add: written_def wellformed_def less_imp_diff_less)

lemma Offset_written: "wellformed b \<Longrightarrow> Offset b = of_nat (length (written b))"
  by (simp add: Offset_def written_def wellformed_def)

lemma grows_by_refl: "wellformed b \<Longrightarrow> grows_by [] b b"
  by (simp add: grows_by_def)

lemma grows_by_trans:
  "grows_by xs b b1 \<Longrightarrow> grows_by ys b1 b2 \<Longrightarrow> grows_by (ys @ xs) b b2"
  by (simp add: grows_by_def)

lemma grows_by_wellformed: "grows_by bs b b' \<Longrightarrow> wellformed b'"
  by (simp add: grows_by_def)

lemma Place_spec:
  assumes wf: "wellformed b" and k: "k < 2 ^ 32" and r: "Place k x b = (Returns u, b')"
  shows "grows_by (le_bytes k x) b b'" and "minalign b' = minalign b"
    and "unat (head b') + k = unat (head b)"
proof -
  let ?h = "head b - of_nat k"
  from Place_Returns [OF r]
  have b': "b' = b\<lparr>head := ?h,
                 Bytes := take (unat ?h) (Bytes b) @ le_bytes k x @
                            drop (unat ?h + k) (Bytes b)\<rparr>"
    and fit: "unat ?h + k \<le> length (Bytes b)"
    by simp_all
  have uk: "unat (of_nat k :: 32 word) = k"
    using k by (simp add: unat_of_nat)
  have "unat ?h + unat (of_nat k :: 32 word) < 2 ^ LENGTH(32)"
    using fit wf by (simp add: uk wellformed_def)
  then have "unat (?h + of_nat k) = unat ?h + k"
    by (simp only: unat_add_lem [THEN iffD1] uk)
  then have h: "unat (head b) = unat ?h + k"
    by simp
  then show "unat (head b') + k = unat (head b)"
    by (simp add: b')
  show "minalign b' = minalign b"
    by (simp add: b')
  have "written b' = le_bytes k x @ written b"
    using fit by (simp add: b' written_def h length_le_bytes)
  moreover have "wellformed b'"
    using wf fit by (simp add: b' wellformed_def length_le_bytes)
  ultimately show "grows_by (le_bytes k x) b b'"
    by (simp add: grows_by_def) (simp add: b')
qed

lemma le_bytes_one_zero: "le_bytes (Suc 0) (0 :: byte) = [0]"
  by (simp add: le_bytes_def)

lemma Pad_loop_spec:
  "wellformed b \<Longrightarrow> Pad_loop n b = (Returns u, b') \<Longrightarrow>
     grows_by (replicate n 0) b b' \<and> minalign b' = minalign b \<and>
     unat (head b') + n = unat (head b)"
proof (induction n arbitrary: b)
  case 0
  then show ?case by (simp add: grows_by_refl)
next
  case (Suc n)
  from Suc.prems obtain b1 where p: "Place (Suc 0) (0 :: byte) b = (Returns (), b1)"
    and l: "Pad_loop n b1 = (Returns u, b')"
    by (auto simp: PlaceByte_def SizeByte_def split: prod.splits outcome.splits)
  have g1: "grows_by [0] b b1" and m1: "minalign b1 = minalign b"
    and h1: "unat (head b1) + Suc 0 = unat (head b)"
    using Place_spec [OF Suc.prems(1) _ p] by (simp_all add: le_bytes_one_zero)
  from Suc.IH [OF grows_by_wellformed [OF g1] l]
  have g2: "grows_by (replicate n 0) b1 b'" and m2: "minalign b' = minalign b1"
    and h2: "unat (head b') + n = unat (head b1)"
    by simp_all
  from grows_by_trans [OF g1 g2] have "grows_by (replicate (Suc n) 0) b b'"
    by (simp add: replicate_append_same)
  with m1 m2 h1 h2 show ?case
    by simp
qed

lemma Prep_loop_spec:
  "wellformed b \<Longrightarrow> Prep_loop need b = (Returns u, b') \<Longrightarrow>
     grows_by [] b b' \<and> minalign b' = minalign b \<and> need < int (unat (head b'))"
proof (induction need b rule: Prep_loop.induct)
  case (1 need b)
  show ?case
  proof (cases "int (unat (head b)) \<le> need")
    case False
    with "1.prems" have "b' = b"
      by (simp add: Prep_loop.simps)
    with False "1.prems" show ?thesis
      by (simp add: grows_by_refl)
  next
    case True
    let ?b2 = "(grown b)\<lparr>head := head (grown b) +
                  of_int (int (length (Bytes (grown b))) - int (length (Bytes b)))\<rparr>"
    from True "1.prems" obtain b1 where g: "growByteBuffer b = (Returns (), b1)"
      and l0: "Prep_loop need
               (b1\<lparr>head := head b1 + of_int (int (length (Bytes b1)) - int (length (Bytes b)))\<rparr>)
                = (Returns u, b')"
      by (subst (asm) Prep_loop.simps) (auto simp: Let_def split: prod.splits outcome.splits)
    from g have b1: "b1 = grown b" and lim: "int (length (Bytes b)) AND 0xC0000000 = 0"
      by (rule grow_returns)+
    from l0 have l: "Prep_loop need ?b2 = (Returns u, b')"
      by (simp add: b1)
    from "1.prems"(1) have wf: "unat (head b) \<le> length (Bytes b)" "length (Bytes b) < 2 ^ 31"
      "1 \<le> minalign b"
      by (simp_all add: wellformed_def)
    from lim wf(2) have small: "length (Bytes b) < 2 ^ 30"
      by (rule limit_small)
    have step: "wellformed ?b2 \<and> written ?b2 = written b"
    proof (cases "Bytes b = []")
      case True
      with wf(1) have h0: "head b = 0"
        by (simp add: unat_eq_0)
      from True have "length (Bytes (grown b)) = 1"
        by (rule grown_Bytes_empty)
      with True h0 wf(3) show ?thesis
        by (simp add: wellformed_def written_def grown_frame)
    next
      case False
      then have B: "Bytes (grown b) = Bytes b @ Bytes b"
        by (rule grown_Bytes_nonempty)
      have ul: "unat (of_nat (length (Bytes b)) :: 32 word) = length (Bytes b)"
        using wf(2) by (simp add: unat_of_nat)
      have "unat (head b) + unat (of_nat (length (Bytes b)) :: 32 word) < 2 ^ LENGTH(32)"
        using wf small by (simp add: ul)
      then have "unat (head b + of_nat (length (Bytes b))) = unat (head b) + length (Bytes b)"
        by (simp only: unat_add_lem [THEN iffD1] ul)
      with wf small show ?thesis
        by (simp add: wellformed_def written_def grown_frame B)
    qed
    note ih = "1.IH" [OF True refl g [symmetric] refl, unfolded b1]
    from step have "wellformed ?b2" ..
    from ih [OF this l]
    have "grows_by [] ?b2 b'" and "minalign b' = minalign ?b2"
      and "need < int (unat (head b'))"
      by simp_all
    with step "1.prems"(1) show ?thesis
      by (simp add: grows_by_def grown_frame)
  qed
qed

lemma Prep_spec:
  assumes wf: "wellformed b" and sz: "1 \<le> sz" and e: "0 \<le> additionalBytes"
    and r: "Prep sz additionalBytes b = (Returns u, b')"
  shows "\<exists>p. grows_by (replicate p 0) b b' \<and>
             int p = (NOT (int (length (written b)) + additionalBytes) + 1) AND (sz - 1) \<and>
             minalign b' = max (minalign b) sz \<and>
             sz + additionalBytes < int (unat (head b'))"
proof -
  let ?b1 = "if sz > minalign b then b\<lparr>minalign := sz\<rparr> else b"
  let ?A = "(NOT (int (length (written b)) + additionalBytes) + 1) AND (sz - 1)"
  have s: "Bytes ?b1 = Bytes b" "head ?b1 = head b"
    by simp_all
  have L: "int (length (Bytes b)) - int (unat (head b)) = int (length (written b))"
    using wf by (simp add: written_def wellformed_def)
  have wf1: "wellformed ?b1"
    using wf sz by (simp add: wellformed_def)
  have g1: "grows_by [] b ?b1"
    using wf wf1 by (simp add: grows_by_def written_def)
  have m1: "minalign ?b1 = max (minalign b) sz"
    by (simp add: max_def)
  from r obtain b2 where l: "Prep_loop (?A + sz + additionalBytes) ?b1 = (Returns (), b2)"
    and p: "Pad_loop (nat ?A) b2 = (Returns u, b')"
    unfolding Prep_def Let_def Head_def s L Pad_def
    by (auto split: prod.splits outcome.splits)
  from Prep_loop_spec [OF wf1 l]
  have g2: "grows_by [] ?b1 b2" and m2: "minalign b2 = minalign ?b1"
    and room: "?A + sz + additionalBytes < int (unat (head b2))"
    by simp_all
  from Pad_loop_spec [OF grows_by_wellformed [OF g2] p]
  have g3: "grows_by (replicate (nat ?A) 0) b2 b'" and m3: "minalign b' = minalign b2"
    and h3: "unat (head b') + nat ?A = unat (head b2)"
    by simp_all
  have A0: "0 \<le> ?A"
    using sz by simp
  from grows_by_trans [OF grows_by_trans [OF g1 g2] g3]
  have "grows_by (replicate (nat ?A) 0) b b'"
    by simp
  moreover have "int (nat ?A) = ?A"
    using A0 by simp
  moreover have "minalign b' = max (minalign b) sz"
    using m1 m2 m3 by simp
  moreover have "sz + additionalBytes < int (unat (head b'))"
    using room h3 A0 by linarith
  ultimately show ?thesis
    by blast
qed

lemma Prep_spec_pow2:
  assumes wf: "wellformed b" and sz: "sz \<in> {1, 2, 4, 8}" and e: "0 \<le> additionalBytes"
    and r: "Prep sz additionalBytes b = (Returns u, b')"
  shows "grows_by (replicate (pad_for sz (length (written b) + nat additionalBytes)) 0) b b'"
    and "minalign b' = max (minalign b) sz"
    and "sz + additionalBytes < int (unat (head b'))"
proof -
  from sz have sz1: "1 \<le> sz" by auto
  from Prep_spec [OF wf sz1 e r] obtain p where g: "grows_by (replicate p 0) b b'"
    and p: "int p = (NOT (int (length (written b)) + additionalBytes) + 1) AND (sz - 1)"
    and m: "minalign b' = max (minalign b) sz"
    and room: "sz + additionalBytes < int (unat (head b'))"
    by blast
  have "int p = (- (int (length (written b)) + additionalBytes)) mod sz"
    unfolding p using sz by (rule neg_and_pow2)
  then have "p = pad_for sz (length (written b) + nat additionalBytes)"
    using e by (simp add: pad_for_def)
  with g show "grows_by (replicate (pad_for sz (length (written b) + nat additionalBytes)) 0) b b'"
    by simp
  show "minalign b' = max (minalign b) sz" by (rule m)
  show "sz + additionalBytes < int (unat (head b'))" by (rule room)
qed

lemma pad_for_aligned: "0 < sz \<Longrightarrow> int n mod sz = 0 \<Longrightarrow> pad_for sz n = 0"
  by (simp add: pad_for_def zmod_zminus1_eq_if)

lemma pad_for_aligns: "0 < sz \<Longrightarrow> (int (pad_for sz n) + int n) mod sz = 0"
proof -
  assume "0 < sz"
  then have "int (pad_for sz n) = (- int n) mod sz"
    by (simp add: pad_for_def)
  then show ?thesis
    by (metis add.commute add.right_inverse mod_0 mod_add_right_eq)
qed

lemma pad_for_less: "0 < sz \<Longrightarrow> int (pad_for sz n) < sz"
  by (simp add: pad_for_def)

lemma Prepend_spec:
  assumes wf: "wellformed b" and k: "k \<in> {1, 2, 4, 8}"
    and r: "Prepend k x b = (Returns u, b')"
  shows "grows_by (le_bytes k x @ replicate (pad_for (int k) (length (written b))) 0) b b'"
    and "minalign b' = max (minalign b) (int k)"
proof -
  from r obtain b1 where p: "Prep (int k) 0 b = (Returns (), b1)"
    and pl: "Place k x b1 = (Returns u, b')"
    by (auto simp: Prepend_def andThen_def split: prod.splits outcome.splits)
  from k have ki: "int k \<in> {1, 2, 4, 8}" by auto
  from Prep_spec_pow2 [OF wf ki _ p]
  have g1: "grows_by (replicate (pad_for (int k) (length (written b))) 0) b b1"
    and m1: "minalign b1 = max (minalign b) (int k)"
    by simp_all
  from k have k32: "k < 2 ^ 32" by auto
  from Place_spec [OF grows_by_wellformed [OF g1] k32 pl]
  have g2: "grows_by (le_bytes k x) b1 b'" and m2: "minalign b' = minalign b1"
    by simp_all
  from grows_by_trans [OF g1 g2]
  show "grows_by (le_bytes k x @ replicate (pad_for (int k) (length (written b))) 0) b b'" .
  from m1 m2 show "minalign b' = max (minalign b) (int k)" by simp
qed

subsection \<open>Offsets and vtables\<close>

lemma PrependSOffsetT_spec:
  assumes wf: "wellformed b" and r: "PrependSOffsetT off b = (Returns u, b')"
  shows "grows_by
           (le_bytes 4 (of_nat (length (written b) + pad_for 4 (length (written b))) - off + 4
                         :: SOffsetT) @
            replicate (pad_for 4 (length (written b))) 0) b b'"
    and "minalign b' = max (minalign b) 4"
proof -
  from r obtain b1 where p: "Prep 4 0 b = (Returns (), b1)"
    and pl: "Place 4 (Offset b1 - off + 4) b1 = (Returns u, b')"
    by (auto simp: PrependSOffsetT_def PlaceSOffsetT_def SizeSOffsetT_def
             split: prod.splits outcome.splits if_split_asm)
  have "(4::int) \<in> {1, 2, 4, 8}" by simp
  from Prep_spec_pow2 [OF wf this _ p]
  have g1: "grows_by (replicate (pad_for 4 (length (written b))) 0) b b1"
    and m1: "minalign b1 = max (minalign b) 4"
    by simp_all
  have wf1: "wellformed b1" using g1 by (rule grows_by_wellformed)
  have o: "Offset b1 = of_nat (length (written b) + pad_for 4 (length (written b)))"
    using g1 by (simp add: Offset_written [OF wf1] grows_by_def add.commute)
  from Place_spec [OF wf1 _ pl]
  have g2: "grows_by (le_bytes 4 (Offset b1 - off + 4)) b1 b'" and m2: "minalign b' = minalign b1"
    by simp_all
  from grows_by_trans [OF g1 g2] show "grows_by
           (le_bytes 4 (of_nat (length (written b) + pad_for 4 (length (written b))) - off + 4
                         :: SOffsetT) @
            replicate (pad_for 4 (length (written b))) 0) b b'"
    by (simp add: o)
  from m1 m2 show "minalign b' = max (minalign b) 4" by simp
qed

lemma PrependUOffsetT_spec:
  assumes wf: "wellformed b" and r: "PrependUOffsetT off b = (Returns u, b')"
  shows "grows_by
           (le_bytes 4 (of_nat (length (written b) + pad_for 4 (length (written b))) - off + 4
                         :: UOffsetT) @
            replicate (pad_for 4 (length (written b))) 0) b b'"
    and "minalign b' = max (minalign b) 4"
    and "off \<le> of_nat (length (written b) + pad_for 4 (length (written b)))"
proof -
  from r obtain b1 where p: "Prep 4 0 b = (Returns (), b1)"
    and pl: "Place 4 (Offset b1 - off + 4) b1 = (Returns u, b')"
    and le: "off \<le> Offset b1"
    by (auto simp: PrependUOffsetT_def PlaceUOffsetT_def SizeUOffsetT_def
             split: prod.splits outcome.splits if_split_asm)
  have "(4::int) \<in> {1, 2, 4, 8}" by simp
  from Prep_spec_pow2 [OF wf this _ p]
  have g1: "grows_by (replicate (pad_for 4 (length (written b))) 0) b b1"
    and m1: "minalign b1 = max (minalign b) 4"
    by simp_all
  have wf1: "wellformed b1" using g1 by (rule grows_by_wellformed)
  have o: "Offset b1 = of_nat (length (written b) + pad_for 4 (length (written b)))"
    using g1 by (simp add: Offset_written [OF wf1] grows_by_def add.commute)
  from Place_spec [OF wf1 _ pl]
  have g2: "grows_by (le_bytes 4 (Offset b1 - off + 4)) b1 b'" and m2: "minalign b' = minalign b1"
    by simp_all
  from grows_by_trans [OF g1 g2] show "grows_by
           (le_bytes 4 (of_nat (length (written b) + pad_for 4 (length (written b))) - off + 4
                         :: UOffsetT) @
            replicate (pad_for 4 (length (written b))) 0) b b'"
    by (simp add: o)
  from m1 m2 show "minalign b' = max (minalign b) 4" by simp
  from le o show "off \<le> of_nat (length (written b) + pad_for 4 (length (written b)))" by simp
qed

lemma trim_loop_le: "trim_loop n vt \<le> n"
  by (induction n) simp_all

lemma trim_loop_zero: "trim_loop n vt \<le> i \<Longrightarrow> i < n \<Longrightarrow> vt ! i = 0"
proof (induction n)
  case 0
  then show ?case by simp
next
  case (Suc n)
  then show ?case
    by (cases "i = n") (auto split: if_split_asm)
qed

lemma trim_loop_last: "trim_loop n vt = Suc j \<Longrightarrow> vt ! j \<noteq> 0"
  by (induction n) (auto split: if_split_asm)

lemma length_trimmed: "length (trimmed vt) = trim_loop (length vt) vt"
  by (simp add: trimmed_def trim_loop_le)

lemma trimmed_nth: "i < length (trimmed vt) \<Longrightarrow> trimmed vt ! i = vt ! i"
  by (simp add: trimmed_def)

lemma trimmed_beyond: "length (trimmed vt) \<le> i \<Longrightarrow> i < length vt \<Longrightarrow> vt ! i = 0"
  by (simp add: length_trimmed trim_loop_zero)

lemma length_entries_bytes: "length (entries_bytes oo vt) = 2 * length vt"
  by (induction vt) (simp_all add: entries_bytes_def length_le_bytes SizeVOffsetT_def)

lemma entries_bytes_snoc:
  "entries_bytes oo (vt @ [v]) = entries_bytes oo vt @ le_bytes 2 (entry_of oo v)"
  by (simp add: entries_bytes_def SizeVOffsetT_def)

lemma even_pad_zero: "int n mod 2 = 0 \<Longrightarrow> pad_for 2 n = 0"
  by (rule pad_for_aligned) simp_all

lemma write_entries_spec:
  "wellformed b \<Longrightarrow> int (length (written b)) mod 2 = 0 \<Longrightarrow>
   write_entries vs oo b = (Returns u, b') \<Longrightarrow>
     grows_by (entries_bytes oo (rev vs)) b b' \<and>
     (vs \<noteq> [] \<longrightarrow> minalign b' = max (minalign b) 2) \<and> (vs = [] \<longrightarrow> b' = b)"
proof (induction vs arbitrary: b)
  case Nil
  then show ?case
    by (simp add: grows_by_refl entries_bytes_def)
next
  case (Cons v vs)
  from Cons.prems(3) obtain b1 where
    p: "Prepend 2 (entry_of oo v) b = (Returns (), b1)"
    and w: "write_entries vs oo b1 = (Returns u, b')"
    by (auto simp: PrependVOffsetT_def SizeVOffsetT_def entry_of_def Let_def
             split: prod.splits outcome.splits)
  have "(2::nat) \<in> {1, 2, 4, 8}" by simp
  from Prepend_spec [OF Cons.prems(1) this p]
  have g1: "grows_by (le_bytes 2 (entry_of oo v)) b b1"
    and m1: "minalign b1 = max (minalign b) 2"
    using Cons.prems(2) by (simp_all add: even_pad_zero)
  have wf1: "wellformed b1" using g1 by (rule grows_by_wellformed)
  have ev: "int (length (written b1)) mod 2 = 0"
    using g1 Cons.prems(2) by (simp add: grows_by_def length_le_bytes)
  from Cons.IH [OF wf1 ev w]
  have g2: "grows_by (entries_bytes oo (rev vs)) b1 b'"
    and m2: "vs \<noteq> [] \<longrightarrow> minalign b' = max (minalign b1) 2" and e2: "vs = [] \<longrightarrow> b' = b1"
    by simp_all
  from grows_by_trans [OF g1 g2]
  have "grows_by (entries_bytes oo (rev (v # vs))) b b'"
    by (simp add: entries_bytes_snoc)
  moreover have "minalign b' = max (minalign b) 2"
    using m1 m2 e2 by (cases "vs = []") simp_all
  ultimately show ?case
    by simp
qed

lemma Bytes_split: "Bytes b = take (unat (head b)) (Bytes b) @ written b"
  by (simp add: written_def)

lemma put_at_middle:
  "k \<le> length W \<Longrightarrow>
     put_at k (F @ V @ W) (length F + length V) x = Returns (F @ V @ le_bytes k x @ drop k W)"
  by (simp add: put_at_def)

lemma put_at_in_written:
  assumes wf: "wellformed b" and w: "written b = V @ W" and k: "k \<le> length W"
  shows "put_at k (Bytes b) (length (Bytes b) - length W) x =
           Returns (take (unat (head b)) (Bytes b) @ V @ le_bytes k x @ drop k W)"
proof -
  define F where "F = take (unat (head b)) (Bytes b)"
  have B: "Bytes b = F @ V @ W"
    using Bytes_split [of b] w by (simp add: F_def)
  have lF: "length F = unat (head b)"
    using wf by (simp add: wellformed_def F_def)
  have off: "length (Bytes b) - length W = length F + length V"
    unfolding B by simp
  show ?thesis
    unfolding off F_def [symmetric] unfolding B using k by (rule put_at_middle)
qed

lemma sint_of_nat_small: "n < 2 ^ 31 \<Longrightarrow> sint (of_nat n :: 32 word) = int n"
  by (simp add: signed_of_nat signed_take_bit_int_eq_self)

lemma length_vtable_bytes: "length (vtable_bytes oo oe vt) = 2 * length vt + 4"
  by (simp add: vtable_bytes_def length_le_bytes length_entries_bytes SizeVOffsetT_def)

lemma write_new_vtable_spec:
  assumes wf: "wellformed b" and al: "int (length (written b)) mod 2 = 0"
    and four: "4 \<le> length (written b)"
    and oo: "oo = of_nat (length (written b))"
    and r: "write_new_vtable oo b = (Returns u, b')"
  shows "wellformed b'"
    and "written b' = vtable_bytes oo (objectEnd b) (vtable b) @
            le_bytes 4 (of_nat (2 * length (vtable b) + 4) :: SOffsetT) @ drop 4 (written b)"
    and "vtables b' = vtables b @ [of_nat (length (written b) + 2 * length (vtable b) + 4)]"
    and "vtable b' = vtable b" and "objectEnd b' = objectEnd b" and "nested b' = nested b"
    and "finished b' = finished b" and "minalign b' = max (minalign b) 2"
proof -
  let ?vt = "vtable b"
  let ?sz = "ucast (oo - objectEnd b) :: VOffsetT"
  let ?vb = "of_nat ((length ?vt + VtableMetadataFields) * SizeVOffsetT) :: VOffsetT"
  let ?V = "vtable_bytes oo (objectEnd b) ?vt"
  let ?W = "written b"
  from r obtain b1 b2 b3 bs where
    w1: "write_entries (rev ?vt) oo b = (Returns (), b1)"
    and p2: "Prepend 2 (ucast (oo - objectEnd b1) :: VOffsetT) b1 = (Returns (), b2)"
    and p3: "Prepend 2 (of_nat ((length (vtable b2) + VtableMetadataFields) * SizeVOffsetT)
                         :: VOffsetT) b2 = (Returns (), b3)"
    and pos: "\<not> sint ((of_nat (length (Bytes b3)) :: SOffsetT) - oo) < 0"
    and put: "put_at 4 (Bytes b3) (nat (sint ((of_nat (length (Bytes b3)) :: SOffsetT) - oo)))
                (Offset b3 - oo) = Returns bs"
    and b': "b' = b3\<lparr>Bytes := bs, vtables := vtables b3 @ [Offset (b3\<lparr>Bytes := bs\<rparr>)]\<rparr>"
    unfolding write_new_vtable_def Let_def PrependVOffsetT_def SizeVOffsetT_def SizeSOffsetT_def
    by (auto split: prod.splits outcome.splits if_split_asm)
  from write_entries_spec [OF wf al w1]
  have g1: "grows_by (entries_bytes oo ?vt) b b1"
    and m1: "?vt \<noteq> [] \<longrightarrow> minalign b1 = max (minalign b) 2" and e1: "?vt = [] \<longrightarrow> b1 = b"
    by simp_all
  have wf1: "wellformed b1" using g1 by (rule grows_by_wellformed)
  have f1: "objectEnd b1 = objectEnd b" "vtable b1 = ?vt"
    using g1 by (simp_all add: grows_by_def)
  have al1: "int (length (written b1)) mod 2 = 0"
    using g1 al by (simp add: grows_by_def length_entries_bytes)
  have two: "(2::nat) \<in> {1, 2, 4, 8}" by simp
  from Prepend_spec [OF wf1 two p2]
  have g2: "grows_by (le_bytes 2 ?sz) b1 b2" and m2: "minalign b2 = max (minalign b1) 2"
    using al1 by (simp_all add: even_pad_zero f1)
  have wf2: "wellformed b2" using g2 by (rule grows_by_wellformed)
  have f2: "vtable b2 = ?vt"
    using g2 f1 by (simp add: grows_by_def)
  have al2: "int (length (written b2)) mod 2 = 0"
    using g2 al1 by (simp add: grows_by_def length_le_bytes)
  from Prepend_spec [OF wf2 two p3]
  have g3: "grows_by (le_bytes 2 ?vb) b2 b3" and m3: "minalign b3 = max (minalign b2) 2"
    using al2 by (simp_all add: even_pad_zero f2)
  have wf3: "wellformed b3" using g3 by (rule grows_by_wellformed)
  from grows_by_trans [OF grows_by_trans [OF g1 g2] g3]
  have g: "grows_by ?V b b3"
    by (simp add: vtable_bytes_def SizeVOffsetT_def)
  then have w3: "written b3 = ?V @ ?W"
    by (simp add: grows_by_def)
  note lV = length_vtable_bytes
  have len3: "length (Bytes b3) < 2 ^ 31" "unat (head b3) \<le> length (Bytes b3)"
    using wf3 by (simp_all add: wellformed_def)
  have lw3: "length (written b3) = length (Bytes b3) - unat (head b3)"
    using wf3 by (rule length_written)
  have Wle: "length ?W \<le> length (Bytes b3)"
    using lw3 w3 by simp
  have "(of_nat (length (Bytes b3)) :: SOffsetT) - oo = of_nat (length (Bytes b3) - length ?W)"
    using Wle by (simp add: oo)
  moreover have "length (Bytes b3) - length ?W < 2 ^ 31"
    using len3 by simp
  ultimately have st: "nat (sint ((of_nat (length (Bytes b3)) :: SOffsetT) - oo)) =
                        length (Bytes b3) - length ?W"
    by (simp add: sint_of_nat_small)
  have val: "Offset b3 - oo = of_nat (2 * length ?vt + 4)"
    by (simp add: Offset_written [OF wf3] w3 oo lV)
  from put_at_in_written [OF wf3 w3 four, of "Offset b3 - oo"] put
  have bs: "bs = take (unat (head b3)) (Bytes b3) @ ?V @ le_bytes 4 (Offset b3 - oo) @ drop 4 ?W"
    by (simp add: st)
  have lF: "length (take (unat (head b3)) (Bytes b3)) = unat (head b3)"
    using len3 by simp
  have lbs: "length bs = length (Bytes b3)"
    using put by (rule put_at_length)
  show wf': "wellformed b'"
    using wf3 by (simp add: b' wellformed_def lbs)
  show w': "written b' = ?V @ le_bytes 4 (of_nat (2 * length ?vt + 4) :: SOffsetT) @ drop 4 ?W"
    using lF by (simp add: b' written_def bs val)
  have "Offset (b3\<lparr>Bytes := bs\<rparr>) = Offset b3"
    by (simp add: Offset_def lbs)
  also have "\<dots> = of_nat (length ?W + 2 * length ?vt + 4)"
    by (simp add: Offset_written [OF wf3] w3 lV)
  finally show "vtables b' = vtables b @ [of_nat (length ?W + 2 * length ?vt + 4)]"
    using g by (simp add: b' grows_by_def)
  show "vtable b' = vtable b" "objectEnd b' = objectEnd b" "nested b' = nested b"
    "finished b' = finished b"
    using g by (simp_all add: b' grows_by_def)
  show "minalign b' = max (minalign b) 2"
    using m1 e1 m2 m3 by (cases "?vt = []") (simp_all add: b')
qed

lemma get_at_append_right: "get_at k (X @ Y) (length X + off) = get_at k Y off"
  by (simp add: get_at_def)

lemma get_at_append_left: "off + k \<le> length X \<Longrightarrow> get_at k (X @ Y) off = get_at k X off"
  by (simp add: get_at_def)

lemma get_at_le_bytes:
  "LENGTH('a) \<le> 8 * k \<Longrightarrow> get_at k (le_bytes k w @ Y) 0 = Returns (w :: 'a::len word)"
  by (simp add: get_at_def length_le_bytes le_word_le_bytes)

lemma get_at_le_bytes_at:
  "LENGTH('a) \<le> 8 * k \<Longrightarrow>
     get_at k (X @ le_bytes k w @ Y) (length X) = Returns (w :: 'a::len word)"
  by (simp add: get_at_def length_le_bytes le_word_le_bytes)

lemma entries_bytes_Cons:
  "entries_bytes oo (v # vt) = le_bytes 2 (entry_of oo v) @ entries_bytes oo vt"
  by (simp add: entries_bytes_def SizeVOffsetT_def)

lemma get_at_entries:
  "i < length vt \<Longrightarrow> get_at 2 (entries_bytes oo vt @ Y) (2 * i) = Returns (entry_of oo (vt ! i))"
proof (induction vt arbitrary: i)
  case Nil
  then show ?case by simp
next
  case (Cons v vt)
  show ?case
  proof (cases i)
    case 0
    then show ?thesis
      by (simp add: entries_bytes_Cons get_at_le_bytes)
  next
    case (Suc j)
    with Cons.prems have j: "j < length vt" by simp
    have "get_at 2 (le_bytes 2 (entry_of oo v) @ entries_bytes oo vt @ Y)
            (length (le_bytes 2 (entry_of oo v)) + 2 * j) =
          (get_at 2 (entries_bytes oo vt @ Y) (2 * j) :: VOffsetT outcome)"
      by (rule get_at_append_right)
    with Cons.IH [OF j] Suc show ?thesis
      by (simp add: entries_bytes_Cons length_le_bytes)
  qed
qed

lemma get_at_vtable_bytes_len:
  "get_at 2 (vtable_bytes oo oe vt @ Y) 0 = Returns (of_nat (2 * length vt + 4) :: VOffsetT)"
  by (simp add: vtable_bytes_def get_at_le_bytes SizeVOffsetT_def VtableMetadataFields_def
      mult.commute)

lemma get_at_vtable_bytes_size:
  "get_at 2 (vtable_bytes oo oe vt @ Y) 2 = Returns (ucast (oo - oe) :: VOffsetT)"
proof -
  have "get_at 2 (le_bytes 2 (of_nat ((length vt + 2) * 2) :: VOffsetT) @
                  le_bytes 2 (ucast (oo - oe) :: VOffsetT) @ entries_bytes oo vt @ Y)
          (length (le_bytes 2 (of_nat ((length vt + 2) * 2) :: VOffsetT))) =
        Returns (ucast (oo - oe) :: VOffsetT)"
    by (rule get_at_le_bytes_at) simp
  then show ?thesis
    by (simp add: vtable_bytes_def SizeVOffsetT_def VtableMetadataFields_def length_le_bytes)
qed

lemma get_at_vtable_bytes_entry:
  assumes "i < length vt"
  shows "get_at 2 (vtable_bytes oo oe vt @ Y) (4 + 2 * i) = Returns (entry_of oo (vt ! i))"
proof -
  let ?M = "le_bytes 2 (of_nat ((length vt + 2) * 2) :: VOffsetT) @
            le_bytes 2 (ucast (oo - oe) :: VOffsetT)"
  have "get_at 2 (?M @ entries_bytes oo vt @ Y) (length ?M + 2 * i) =
        (get_at 2 (entries_bytes oo vt @ Y) (2 * i) :: VOffsetT outcome)"
    by (rule get_at_append_right)
  with get_at_entries [OF assms] show ?thesis
    by (simp add: vtable_bytes_def SizeVOffsetT_def VtableMetadataFields_def length_le_bytes)
qed

lemma written_update [simp]:
  "written (b\<lparr>vtable := v\<rparr>) = written b" "written (b\<lparr>nested := n\<rparr>) = written b"
  "written (b\<lparr>finished := f\<rparr>) = written b" "written (b\<lparr>objectEnd := e\<rparr>) = written b"
  "written (b\<lparr>vtables := vs\<rparr>) = written b" "written (b\<lparr>minalign := m\<rparr>) = written b"
  by (simp_all add: written_def)

lemma wellformed_update [simp]:
  "wellformed (b\<lparr>vtable := v\<rparr>) = wellformed b"
  "wellformed (b\<lparr>nested := n\<rparr>) = wellformed b"
  "wellformed (b\<lparr>finished := f\<rparr>) = wellformed b"
  "wellformed (b\<lparr>objectEnd := e\<rparr>) = wellformed b"
  "wellformed (b\<lparr>vtables := vs\<rparr>) = wellformed b"
  by (simp_all add: wellformed_def)

lemma reuse_vtable_frame:
  "reuse_vtable ex oo b = (Returns u, b') \<Longrightarrow> vtables b' = vtables b"
  by (auto simp: reuse_vtable_def Let_def split: outcome.splits)

text \<open>What \<open>WriteVtable\<close> has done when it returns having recorded a new vtable.\<close>

lemma WriteVtable_new_spec:
  assumes wf: "wellformed b" and r: "WriteVtable b = (Returns oo, b')"
    and new: "vtables b' \<noteq> vtables b"
  shows "wellformed b'"
    and "oo = of_nat (length (written b) + pad_for 4 (length (written b)) + 4)"
    and "written b' = vtable_bytes oo (objectEnd b) (trimmed (vtable b)) @
            le_bytes 4 (of_nat (2 * length (trimmed (vtable b)) + 4) :: SOffsetT) @
            replicate (pad_for 4 (length (written b))) 0 @ written b"
    and "vtables b' = vtables b @
            [of_nat (length (written b) + pad_for 4 (length (written b)) + 4 +
                     2 * length (trimmed (vtable b)) + 4)]"
    and "nested b' = nested b" and "finished b' = finished b"
    and "minalign b' = max (minalign b) 4" and "vtable b' = []"
    and "objectEnd b' = objectEnd b"
proof -
  let ?p = "pad_for 4 (length (written b))"
  let ?OO = "length (written b) + ?p + 4"
  from r obtain b1 ex b3 where
    p1: "PrependSOffsetT 0 b = (Returns (), b1)"
    and f: "find_vtable (rev (vtables b1)) (Offset b1)
              (b1\<lparr>vtable := trimmed (vtable b1)\<rparr>) = Returns ex"
    and br: "(if ex = 0 then write_new_vtable (Offset b1) (b1\<lparr>vtable := trimmed (vtable b1)\<rparr>)
              else reuse_vtable ex (Offset b1) (b1\<lparr>vtable := trimmed (vtable b1)\<rparr>))
             = (Returns (), b3)"
    and oo: "oo = Offset b1" and b': "b' = b3\<lparr>vtable := []\<rparr>"
    unfolding WriteVtable_def Let_def trimmed_def [symmetric]
    by (auto split: prod.splits outcome.splits)
  let ?b2 = "b1\<lparr>vtable := trimmed (vtable b1)\<rparr>"
  from PrependSOffsetT_spec [OF wf p1]
  have g1: "grows_by (le_bytes 4 (of_nat (length (written b) + ?p) - 0 + 4 :: SOffsetT) @
                      replicate ?p 0) b b1"
    and m1: "minalign b1 = max (minalign b) 4"
    by simp_all
  have wf1: "wellformed b1" using g1 by (rule grows_by_wellformed)
  have w1: "written b1 = le_bytes 4 (of_nat (length (written b) + ?p) + 4 :: SOffsetT) @
                         replicate ?p 0 @ written b"
    using g1 by (simp add: grows_by_def)
  have l1: "length (written b1) = ?OO"
    by (simp add: w1 length_le_bytes)
  have f1: "vtable b1 = vtable b" "objectEnd b1 = objectEnd b" "vtables b1 = vtables b"
    "nested b1 = nested b" "finished b1 = finished b"
    using g1 by (simp_all add: grows_by_def)
  have wf2: "wellformed ?b2" and w2: "written ?b2 = written b1"
    using wf1 by simp_all
  have oo2: "Offset b1 = of_nat (length (written ?b2))"
    by (simp add: Offset_written [OF wf1] w2)
  have al: "int (length (written ?b2)) mod 2 = 0"
  proof -
    have "(int ?p + int (length (written b))) mod 4 = 0"
      by (rule pad_for_aligns) simp
    then have "(int ?p + int (length (written b)) + 4) mod 4 = 0"
      by simp
    then have "int ?OO mod 4 = 0"
      by (simp add: add.commute add.left_commute)
    then have "int ?OO mod 2 = 0"
      by presburger
    then show ?thesis
      by (simp only: w2 l1)
  qed
  have four: "4 \<le> length (written ?b2)"
    by (simp add: w2 l1)
  have ex0: "ex = 0"
  proof (rule ccontr)
    assume "ex \<noteq> 0"
    with br have "reuse_vtable ex (Offset b1) ?b2 = (Returns (), b3)"
      by simp
    then have "vtables b3 = vtables ?b2"
      by (rule reuse_vtable_frame)
    with new show False
      by (simp add: b' f1)
  qed
  with br have wn: "write_new_vtable (Offset b1) ?b2 = (Returns (), b3)"
    by simp
  note sp = write_new_vtable_spec [OF wf2 al four oo2 wn]
  show "oo = of_nat ?OO"
    by (simp add: oo Offset_written [OF wf1] l1)
  then have oo': "Offset b1 = of_nat ?OO"
    by (simp add: oo)
  show "wellformed b'"
    using sp(1) by (simp add: b')
  have "drop 4 (written b1) = replicate ?p 0 @ written b"
    by (simp add: w1 length_le_bytes)
  with sp(2) show "written b' = vtable_bytes oo (objectEnd b) (trimmed (vtable b)) @
            le_bytes 4 (of_nat (2 * length (trimmed (vtable b)) + 4) :: SOffsetT) @
            replicate ?p 0 @ written b"
    by (simp add: b' f1 oo)
  from sp(3) show "vtables b' = vtables b @ [of_nat (?OO + 2 * length (trimmed (vtable b)) + 4)]"
    by (simp add: b' l1 f1)
  from sp(6,7,8) m1 show "nested b' = nested b" "finished b' = finished b"
    "minalign b' = max (minalign b) 4"
    by (simp_all add: b' f1)
  show "vtable b' = []"
    by (simp add: b')
  from sp(5) show "objectEnd b' = objectEnd b"
    by (simp add: b' f1)
qed

subsection \<open>When the methods return\<close>

lemma grow_step:
  assumes wf: "wellformed b" and small: "length (Bytes b) < 2 ^ 30"
  defines "b2 \<equiv> (grown b)\<lparr>head := head (grown b) +
                  of_int (int (length (Bytes (grown b))) - int (length (Bytes b)))\<rparr>"
  shows "wellformed b2" and "written b2 = written b"
proof -
  from wf have w: "unat (head b) \<le> length (Bytes b)" "length (Bytes b) < 2 ^ 31"
    "1 \<le> minalign b"
    by (simp_all add: wellformed_def)
  have "wellformed b2 \<and> written b2 = written b"
  proof (cases "Bytes b = []")
    case True
    with w(1) have h0: "head b = 0"
      by (simp add: unat_eq_0)
    from True have "length (Bytes (grown b)) = 1"
      by (rule grown_Bytes_empty)
    with True h0 w(3) show ?thesis
      by (simp add: b2_def wellformed_def written_def grown_frame)
  next
    case False
    then have B: "Bytes (grown b) = Bytes b @ Bytes b"
      by (rule grown_Bytes_nonempty)
    have ul: "unat (of_nat (length (Bytes b)) :: 32 word) = length (Bytes b)"
      using w(2) by (simp add: unat_of_nat)
    have "unat (head b) + unat (of_nat (length (Bytes b)) :: 32 word) < 2 ^ LENGTH(32)"
      using w small by (simp add: ul)
    then have "unat (head b + of_nat (length (Bytes b))) = unat (head b) + length (Bytes b)"
      by (simp only: unat_add_lem [THEN iffD1] ul)
    with w small show ?thesis
      by (simp add: b2_def wellformed_def written_def grown_frame B)
  qed
  then show "wellformed b2" and "written b2 = written b"
    by simp_all
qed

lemma Prep_loop_total:
  "wellformed b \<Longrightarrow> need + int (length (written b)) < 2 ^ 30 \<Longrightarrow>
     \<exists>b'. Prep_loop need b = (Returns (), b')"
proof (induction need b rule: Prep_loop.induct)
  case (1 need b)
  show ?case
  proof (cases "int (unat (head b)) \<le> need")
    case False
    then show ?thesis
      by (simp add: Prep_loop.simps)
  next
    case True
    let ?b2 = "(grown b)\<lparr>head := head (grown b) +
                  of_int (int (length (Bytes (grown b))) - int (length (Bytes b)))\<rparr>"
    have "int (length (Bytes b)) = int (unat (head b)) + int (length (written b))"
      using "1.prems"(1) by (simp add: written_def wellformed_def)
    with True "1.prems"(2) have "int (length (Bytes b)) < 2 ^ 30"
      by linarith
    then have small: "length (Bytes b) < 2 ^ 30"
      by simp
    then have g: "growByteBuffer b = (Returns (), grown b)"
      by (rule grow_below_limit)
    from grow_step [OF "1.prems"(1) small]
    have wf2: "wellformed ?b2" and w2: "written ?b2 = written b"
      by simp_all
    from "1.IH" [OF True refl g [symmetric] refl wf2] "1.prems"(2) w2
    obtain b' where "Prep_loop need ?b2 = (Returns (), b')"
      by auto
    with True g show ?thesis
      by (subst Prep_loop.simps) simp
  qed
qed

lemma Place_total:
  assumes wf: "wellformed b" and k: "k \<le> unat (head b)"
  shows "\<exists>b'. Place k x b = (Returns (), b')"
proof -
  have "unat (head b) < 2 ^ 32"
    using unsigned_less [of "head b", where 'a = nat] by simp
  with k have k32: "k < 2 ^ 32"
    by simp
  then have uk: "unat (of_nat k :: 32 word) = k"
    by (simp add: unat_of_nat)
  have "(of_nat k :: 32 word) \<le> head b"
    using k by (simp add: word_le_nat_alt uk)
  then have "unat (head b - of_nat k) = unat (head b) - k"
    by (simp only: unat_sub uk)
  with k wf have "unat (head b - of_nat k) + k \<le> length (Bytes b)"
    by (simp add: wellformed_def)
  then show ?thesis
    by (simp add: Place_def Let_def put_at_def)
qed

lemma Pad_loop_total:
  "wellformed b \<Longrightarrow> n \<le> unat (head b) \<Longrightarrow> \<exists>b'. Pad_loop n b = (Returns (), b')"
proof (induction n arbitrary: b)
  case 0
  then show ?case by simp
next
  case (Suc n)
  from Place_total [OF Suc.prems(1), of "Suc 0" "0 :: byte"] Suc.prems(2)
  obtain b1 where p: "Place (Suc 0) (0 :: byte) b = (Returns (), b1)"
    by auto
  from Place_spec [OF Suc.prems(1) _ p]
  have "wellformed b1" and "unat (head b1) + Suc 0 = unat (head b)"
    by (simp_all add: grows_by_def)
  with Suc.IH [of b1] Suc.prems(2) obtain b' where "Pad_loop n b1 = (Returns (), b')"
    by auto
  with p show ?case
    by (simp add: PlaceByte_def SizeByte_def)
qed

lemma Prep_total:
  assumes wf: "wellformed b" and sz: "1 \<le> sz" and e: "0 \<le> additionalBytes"
    and small: "int (length (written b)) + 2 * sz + additionalBytes \<le> 2 ^ 30"
  shows "\<exists>b'. Prep sz additionalBytes b = (Returns (), b')"
proof -
  let ?b1 = "if sz > minalign b then b\<lparr>minalign := sz\<rparr> else b"
  let ?A = "(NOT (int (length (written b)) + additionalBytes) + 1) AND (sz - 1)"
  have s: "Bytes ?b1 = Bytes b" "head ?b1 = head b"
    by simp_all
  have L: "int (length (Bytes b)) - int (unat (head b)) = int (length (written b))"
    using wf by (simp add: written_def wellformed_def)
  have wf1: "wellformed ?b1"
    using wf sz by (simp add: wellformed_def)
  have w1: "written ?b1 = written b"
    by (simp add: written_def)
  have A: "0 \<le> ?A" "?A \<le> sz - 1"
    using sz by simp_all
  then have "?A + sz + additionalBytes + int (length (written ?b1)) < 2 ^ 30"
    using small by (simp add: w1)
  from Prep_loop_total [OF wf1 this] obtain b2
    where l: "Prep_loop (?A + sz + additionalBytes) ?b1 = (Returns (), b2)"
    by blast
  from Prep_loop_spec [OF wf1 l]
  have wf2: "wellformed b2" and room: "?A + sz + additionalBytes < int (unat (head b2))"
    by (simp_all add: grows_by_def)
  have "nat ?A \<le> unat (head b2)"
    using room A sz e by linarith
  from Pad_loop_total [OF wf2 this] obtain b' where "Pad_loop (nat ?A) b2 = (Returns (), b')"
    by blast
  with l show ?thesis
    unfolding Prep_def Let_def Head_def s L Pad_def by simp
qed

lemma Prepend_total:
  assumes wf: "wellformed b" and k: "k \<in> {1, 2, 4, 8}"
    and small: "length (written b) + 2 * k \<le> 2 ^ 30"
  shows "\<exists>b'. Prepend k x b = (Returns (), b')"
proof -
  from k have k1: "1 \<le> int k" by auto
  have "int (length (written b) + 2 * k) \<le> int (2 ^ 30)"
    using small by (simp only: of_nat_le_iff)
  then have "int (length (written b)) + 2 * int k + 0 \<le> 2 ^ 30"
    by simp
  from Prep_total [OF wf k1 _ this] obtain b1 where p: "Prep (int k) 0 b = (Returns (), b1)"
    by auto
  from Prep_spec [OF wf k1 _ p]
  have wf1: "wellformed b1" and "int k + 0 < int (unat (head b1))"
    by (auto simp: grows_by_def)
  then have "k \<le> unat (head b1)"
    by linarith
  from Place_total [OF wf1 this] obtain b' where "Place k x b1 = (Returns (), b')"
    by blast
  with p show ?thesis
    by (simp add: Prepend_def andThen_def)
qed

lemma write_entries_total:
  "wellformed b \<Longrightarrow> int (length (written b)) mod 2 = 0 \<Longrightarrow>
   length (written b) + 2 * length vs + 4 \<le> 2 ^ 30 \<Longrightarrow>
     \<exists>b'. write_entries vs oo b = (Returns (), b')"
proof (induction vs arbitrary: b)
  case Nil
  then show ?case by simp
next
  case (Cons v vs)
  have two: "(2::nat) \<in> {1, 2, 4, 8}" by simp
  have "length (written b) + 2 * 2 \<le> 2 ^ 30"
    using Cons.prems(3) by simp
  from Prepend_total [OF Cons.prems(1) two this]
  obtain b1 where p: "Prepend 2 (entry_of oo v) b = (Returns (), b1)"
    by blast
  from Prepend_spec [OF Cons.prems(1) two p]
  have g1: "grows_by (le_bytes 2 (entry_of oo v)) b b1"
    using Cons.prems(2) by (simp add: even_pad_zero)
  then have wf1: "wellformed b1" and w1: "written b1 = le_bytes 2 (entry_of oo v) @ written b"
    by (simp_all add: grows_by_def)
  have ev: "int (length (written b1)) mod 2 = 0"
    using Cons.prems(2) by (simp add: w1 length_le_bytes)
  have "length (written b1) + 2 * length vs + 4 \<le> 2 ^ 30"
    using Cons.prems(3) by (simp add: w1 length_le_bytes)
  from Cons.IH [OF wf1 ev this] obtain b' where "write_entries vs oo b1 = (Returns (), b')"
    by blast
  with p show ?case
    by (simp add: PrependVOffsetT_def SizeVOffsetT_def entry_of_def Let_def)
qed

lemma write_new_vtable_total:
  assumes wf: "wellformed b" and al: "int (length (written b)) mod 2 = 0"
    and four: "4 \<le> length (written b)"
    and oo: "oo = of_nat (length (written b))"
    and small: "length (written b) + 2 * length (vtable b) + 12 \<le> 2 ^ 30"
  shows "\<exists>b'. write_new_vtable oo b = (Returns (), b')"
proof -
  let ?vt = "vtable b"
  let ?sz = "ucast (oo - objectEnd b) :: VOffsetT"
  let ?vb = "of_nat ((length ?vt + VtableMetadataFields) * SizeVOffsetT) :: VOffsetT"
  let ?V = "vtable_bytes oo (objectEnd b) ?vt"
  let ?W = "written b"
  have two: "(2::nat) \<in> {1, 2, 4, 8}" by simp
  have "length ?W + 2 * length (rev ?vt) + 4 \<le> 2 ^ 30"
    using small by simp
  from write_entries_total [OF wf al this]
  obtain b1 where w1: "write_entries (rev ?vt) oo b = (Returns (), b1)"
    by blast
  from write_entries_spec [OF wf al w1]
  have g1: "grows_by (entries_bytes oo ?vt) b b1"
    by simp
  have wf1: "wellformed b1" using g1 by (rule grows_by_wellformed)
  have f1: "objectEnd b1 = objectEnd b" "vtable b1 = ?vt"
    and ww1: "written b1 = entries_bytes oo ?vt @ ?W"
    using g1 by (simp_all add: grows_by_def)
  have al1: "int (length (written b1)) mod 2 = 0"
    using al by (simp add: ww1 length_entries_bytes)
  have "length (written b1) + 2 * 2 \<le> 2 ^ 30"
    using small by (simp add: ww1 length_entries_bytes)
  from Prepend_total [OF wf1 two this]
  obtain b2 where p2: "Prepend 2 ?sz b1 = (Returns (), b2)"
    by blast
  from Prepend_spec [OF wf1 two p2]
  have g2: "grows_by (le_bytes 2 ?sz) b1 b2"
    using al1 by (simp add: even_pad_zero)
  have wf2: "wellformed b2" using g2 by (rule grows_by_wellformed)
  have f2: "vtable b2 = ?vt" and ww2: "written b2 = le_bytes 2 ?sz @ written b1"
    using g2 f1 by (simp_all add: grows_by_def)
  have al2: "int (length (written b2)) mod 2 = 0"
    using al1 by (simp add: ww2 length_le_bytes)
  have "length (written b2) + 2 * 2 \<le> 2 ^ 30"
    using small by (simp add: ww2 ww1 length_entries_bytes length_le_bytes)
  from Prepend_total [OF wf2 two this]
  obtain b3 where p3: "Prepend 2 ?vb b2 = (Returns (), b3)"
    by blast
  from Prepend_spec [OF wf2 two p3]
  have g3: "grows_by (le_bytes 2 ?vb) b2 b3"
    using al2 by (simp add: even_pad_zero)
  have wf3: "wellformed b3" using g3 by (rule grows_by_wellformed)
  from grows_by_trans [OF grows_by_trans [OF g1 g2] g3]
  have "grows_by ?V b b3"
    by (simp add: vtable_bytes_def SizeVOffsetT_def)
  then have w3: "written b3 = ?V @ ?W"
    by (simp add: grows_by_def)
  have len3: "length (Bytes b3) < 2 ^ 31" "unat (head b3) \<le> length (Bytes b3)"
    using wf3 by (simp_all add: wellformed_def)
  have lw3: "length (written b3) = length (Bytes b3) - unat (head b3)"
    using wf3 by (rule length_written)
  have Wle: "length ?W \<le> length (Bytes b3)"
    using lw3 w3 by simp
  have os: "(of_nat (length (Bytes b3)) :: SOffsetT) - oo = of_nat (length (Bytes b3) - length ?W)"
    using Wle by (simp add: oo)
  have lt: "length (Bytes b3) - length ?W < 2 ^ 31"
    using len3 by simp
  have si: "sint ((of_nat (length (Bytes b3)) :: SOffsetT) - oo) =
              int (length (Bytes b3) - length ?W)"
    unfolding os using lt by (rule sint_of_nat_small)
  from put_at_in_written [OF wf3 w3 four, of "Offset b3 - oo"]
  obtain bs where "put_at 4 (Bytes b3) (length (Bytes b3) - length ?W) (Offset b3 - oo)
                     = Returns bs"
    by blast
  with w1 p2 p3 show ?thesis
    unfolding write_new_vtable_def Let_def PrependVOffsetT_def SizeVOffsetT_def SizeSOffsetT_def
    by (simp add: f1 f2 si)
qed

lemma PrependSOffsetT_zero_total:
  assumes wf: "wellformed b" and small: "length (written b) + 8 \<le> 2 ^ 30"
  shows "\<exists>b'. PrependSOffsetT 0 b = (Returns (), b')"
proof -
  have "int (length (written b) + 8) \<le> int (2 ^ 30)"
    using small by (simp only: of_nat_le_iff)
  then have "int (length (written b)) + 2 * 4 + 0 \<le> 2 ^ 30"
    by simp
  from Prep_total [OF wf _ _ this] obtain b1 where p: "Prep 4 0 b = (Returns (), b1)"
    by auto
  from Prep_spec [OF wf _ _ p]
  have wf1: "wellformed b1" and "(4::int) + 0 < int (unat (head b1))"
    by (auto simp: grows_by_def)
  then have "4 \<le> unat (head b1)"
    by linarith
  from Place_total [OF wf1 this] obtain b' where
    "Place 4 (Offset b1 - 0 + 4 :: SOffsetT) b1 = (Returns (), b')"
    by blast
  with p show ?thesis
    by (simp add: PrependSOffsetT_def PlaceSOffsetT_def SizeSOffsetT_def)
qed

lemma EndObject_total:
  assumes wf: "wellformed b" and n: "nested b" and fresh: "vtables b = []"
    and small: "length (written b) + 2 * length (vtable b) + 24 \<le> 2 ^ 30"
  shows "\<exists>oo b'. EndObject b = (Returns oo, b') \<and> vtables b' \<noteq> vtables b"
proof -
  let ?p = "pad_for 4 (length (written b))"
  have "length (written b) + 8 \<le> 2 ^ 30"
    using small by simp
  from PrependSOffsetT_zero_total [OF wf this]
  obtain b1 where p1: "PrependSOffsetT 0 b = (Returns (), b1)"
    by blast
  from PrependSOffsetT_spec [OF wf p1]
  have g1: "grows_by (le_bytes 4 (of_nat (length (written b) + ?p) - 0 + 4 :: SOffsetT) @
                      replicate ?p 0) b b1"
    by simp
  have wf1: "wellformed b1" using g1 by (rule grows_by_wellformed)
  have w1: "written b1 = le_bytes 4 (of_nat (length (written b) + ?p) + 4 :: SOffsetT) @
                         replicate ?p 0 @ written b"
    using g1 by (simp add: grows_by_def)
  have l1: "length (written b1) = length (written b) + ?p + 4"
    by (simp add: w1 length_le_bytes)
  have f1: "vtable b1 = vtable b" "vtables b1 = vtables b"
    using g1 by (simp_all add: grows_by_def)
  let ?b2 = "b1\<lparr>vtable := trimmed (vtable b1)\<rparr>"
  have wf2: "wellformed ?b2"
    using wf1 by simp
  have oo2: "Offset b1 = of_nat (length (written ?b2))"
    by (simp add: Offset_written [OF wf1])
  have "(int ?p + int (length (written b))) mod 4 = 0"
    by (rule pad_for_aligns) simp
  then have "(int ?p + int (length (written b)) + 4) mod 4 = 0"
    by simp
  then have "int (length (written b) + ?p + 4) mod 4 = 0"
    by (simp add: add.commute add.left_commute)
  then have "int (length (written b) + ?p + 4) mod 2 = 0"
    by presburger
  then have al: "int (length (written ?b2)) mod 2 = 0"
    by (simp only: written_update l1)
  have four: "4 \<le> length (written ?b2)"
    by (simp add: l1)
  have "int ?p < 4"
    by (rule pad_for_less) simp
  moreover have "length (trimmed (vtable b)) \<le> length (vtable b)"
    by (simp add: length_trimmed trim_loop_le)
  ultimately have "length (written ?b2) + 2 * length (vtable ?b2) + 12 \<le> 2 ^ 30"
    using small by (simp add: l1 f1)
  from write_new_vtable_total [OF wf2 al four oo2 this]
  obtain b3 where wn: "write_new_vtable (Offset b1) ?b2 = (Returns (), b3)"
    by blast
  from write_new_vtable_spec(3) [OF wf2 al four oo2 wn]
  have "vtables b3 \<noteq> vtables b"
    by (simp add: f1)
  with p1 wn n show ?thesis
    unfolding EndObject_def assertNested_def WriteVtable_def Let_def trimmed_def [symmetric]
    by (simp add: f1 fresh)
qed

lemma EndObject_Returns:
  assumes "EndObject b = (Returns oo, b')"
  obtains b1 where "nested b" "WriteVtable b = (Returns oo, b1)" "b' = b1\<lparr>nested := False\<rparr>"
  using assms unfolding EndObject_def assertNested_def
  by (auto split: prod.splits outcome.splits if_split_asm)

lemma ucast_32_16_mod: "unat (ucast (w :: 32 word) :: 16 word) = unat w mod 2 ^ 16"
  by (simp add: unsigned_ucast_eq take_bit_eq_mod)

text \<open>
  C10. Sixteen-bit truncation of vtable entries: when \<open>EndObject\<close> returns having
  serialized a new vtable (\<open>b.vtables\<close> has changed), the data starts with that vtable:
  its byte length, the object size \<open>objectOffset - objectEnd\<close> cast to \<open>VOffsetT\<close>, and for
  each field of the trimmed working vtable either 0 or \<open>objectOffset - vtable[i]\<close> cast
  to \<open>VOffsetT\<close>. The casts reduce the 32-bit differences modulo \<open>2^16\<close>; nothing checks
  that they fit, and the call returns.
\<close>

theorem vtable_entries_are_truncated_to_16_bits:
  assumes wf: "wellformed b" and r: "EndObject b = (Returns oo, b')"
    and new: "vtables b' \<noteq> vtables b"
  shows "oo = of_nat (length (written b) + pad_for 4 (length (written b)) + 4) \<and>
         (\<exists>rest. written b' = vtable_bytes oo (objectEnd b) (trimmed (vtable b)) @ rest) \<and>
         (\<forall>i < length (trimmed (vtable b)). vtable b ! i \<noteq> 0 \<longrightarrow>
            get_at SizeVOffsetT (written b') (4 + 2 * i) =
              Returns (ucast (oo - vtable b ! i) :: VOffsetT) \<and>
            unat (ucast (oo - vtable b ! i) :: VOffsetT) = unat (oo - vtable b ! i) mod 2 ^ 16) \<and>
         get_at SizeVOffsetT (written b') 2 = Returns (ucast (oo - objectEnd b) :: VOffsetT) \<and>
         unat (ucast (oo - objectEnd b) :: VOffsetT) = unat (oo - objectEnd b) mod 2 ^ 16"
proof -
  from r obtain b1 where w: "WriteVtable b = (Returns oo, b1)" and b': "b' = b1\<lparr>nested := False\<rparr>"
    by (rule EndObject_Returns)
  from new have new1: "vtables b1 \<noteq> vtables b"
    by (simp add: b')
  note sp = WriteVtable_new_spec [OF wf w new1]
  let ?vt = "trimmed (vtable b)"
  let ?rest = "le_bytes 4 (of_nat (2 * length ?vt + 4) :: SOffsetT) @
               replicate (pad_for 4 (length (written b))) 0 @ written b"
  have wr: "written b' = vtable_bytes oo (objectEnd b) ?vt @ ?rest"
    using sp(3) by (simp add: b')
  have ent: "get_at SizeVOffsetT (written b') (4 + 2 * i) =
               Returns (ucast (oo - vtable b ! i) :: VOffsetT)"
    if "i < length ?vt" and "vtable b ! i \<noteq> 0" for i
    using that get_at_vtable_bytes_entry [OF that(1), of oo "objectEnd b" ?rest]
    by (simp add: wr SizeVOffsetT_def entry_of_def trimmed_nth)
  have siz: "get_at SizeVOffsetT (written b') 2 = Returns (ucast (oo - objectEnd b) :: VOffsetT)"
    by (simp add: wr SizeVOffsetT_def get_at_vtable_bytes_size)
  from sp(2) wr ent siz show ?thesis
    by (auto simp: ucast_32_16_mod)
qed

theorem vtable_entries_are_truncated_to_16_bits_witness:
  "wellformed \<lparr>Bytes = replicate 70000 0, spare = [], minalign = 4, vtable = [4],
               objectEnd = 0, vtables = [], head = 0, nested = True, finished = False\<rparr> \<and>
   (\<exists>b'. EndObject \<lparr>Bytes = replicate 70000 0, spare = [], minalign = 4, vtable = [4],
               objectEnd = 0, vtables = [], head = 0, nested = True, finished = False\<rparr>
           = (Returns 70004, b') \<and> vtables b' \<noteq> [] \<and>
         get_at SizeVOffsetT (written b') 4 = Returns (4464 :: VOffsetT) \<and>
         get_at SizeVOffsetT (written b') 2 = Returns (4468 :: VOffsetT))"
proof -
  let ?b = "\<lparr>Bytes = replicate 70000 0, spare = [], minalign = 4, vtable = [4],
               objectEnd = 0, vtables = [], head = 0, nested = True, finished = False\<rparr>"
  have wf: "wellformed ?b"
    by (simp add: wellformed_def)
  have lw: "length (written ?b) = 70000"
    by (simp add: written_def)
  have "length (written ?b) + 2 * length (vtable ?b) + 24 \<le> 2 ^ 30"
    by (simp add: lw)
  from EndObject_total [OF wf _ _ this] obtain oo b' where
    r: "EndObject ?b = (Returns oo, b')" and new: "vtables b' \<noteq> vtables ?b"
    by auto
  have t: "trimmed (vtable ?b) = [4]"
    by (simp add: trimmed_def)
  have p: "pad_for 4 70000 = 0"
    by (simp add: pad_for_def)
  note th = vtable_entries_are_truncated_to_16_bits [OF wf r new, unfolded lw t p]
  from th have oo: "oo = 70004"
    by simp
  from th have "get_at SizeVOffsetT (written b') (4 + 2 * 0) =
                  Returns (ucast (oo - vtable ?b ! 0) :: VOffsetT)"
    by simp
  then have e: "get_at SizeVOffsetT (written b') 4 = Returns (4464 :: VOffsetT)"
    by (simp add: oo)
  from th have "get_at SizeVOffsetT (written b') 2 = Returns (ucast (oo - objectEnd ?b) :: VOffsetT)"
    by simp
  then have s: "get_at SizeVOffsetT (written b') 2 = Returns (4468 :: VOffsetT)"
    by (simp add: oo)
  from wf r new e s show ?thesis
    unfolding oo by auto
qed

subsection \<open>The nesting protocol\<close>

lemma protocol_panic_simps [simp]:
  "protocol_panic (Returns a) = False" "protocol_panic (Panics p) = is_protocol_panic p"
  by (simp_all add: protocol_panic_def)

lemma benignI:
  "(\<And>b r b'. m b = (r, b') \<Longrightarrow>
      \<not> protocol_panic r \<and> nested b' = nested b \<and> finished b' = finished b) \<Longrightarrow> benign m"
  unfolding benign_def by (metis prod.collapse)

lemma benignD:
  "benign m \<Longrightarrow> m b = (r, b') \<Longrightarrow>
     \<not> protocol_panic r \<and> nested b' = nested b \<and> finished b' = finished b"
  unfolding benign_def by (metis fst_conv snd_conv)

lemma benign_growByteBuffer: "benign growByteBuffer"
  by (rule benignI) (auto simp: growByteBuffer_def grown_frame split: if_split_asm)

lemma benign_Place: "benign (Place k x)"
  by (rule benignI) (auto simp: Place_def Let_def put_at_def split: if_split_asm)

lemma benign_Pad_loop: "benign (Pad_loop n)"
proof (induction n)
  case 0
  show ?case by (rule benignI) simp
next
  case (Suc n)
  show ?case
  proof (rule benignI)
    fix b r b'
    assume a: "Pad_loop (Suc n) b = (r, b')"
    obtain r1 b1 where p: "Place SizeByte (0 :: byte) b = (r1, b1)"
      by (cases "Place SizeByte (0 :: byte) b")
    note d1 = benignD [OF benign_Place p]
    show "\<not> protocol_panic r \<and> nested b' = nested b \<and> finished b' = finished b"
    proof (cases r1)
      case (Returns u)
      with a p have "Pad_loop n b1 = (r, b')"
        by (simp add: PlaceByte_def)
      from benignD [OF Suc this] d1 show ?thesis
        by simp
    next
      case (Panics q)
      with a p have "r = r1" "b' = b1"
        by (simp_all add: PlaceByte_def)
      with d1 show ?thesis
        by simp
    qed
  qed
qed

lemma Prep_loop_benign_aux:
  "Prep_loop need b = (r, b') \<Longrightarrow>
     \<not> protocol_panic r \<and> nested b' = nested b \<and> finished b' = finished b"
proof (induction need b rule: Prep_loop.induct)
  case (1 need b)
  show ?case
  proof (cases "int (unat (head b)) \<le> need")
    case False
    with "1.prems" show ?thesis
      by (auto simp: Prep_loop.simps)
  next
    case True
    obtain r1 b1 where g: "growByteBuffer b = (r1, b1)"
      by (cases "growByteBuffer b")
    note d1 = benignD [OF benign_growByteBuffer g]
    show ?thesis
    proof (cases r1)
      case (Returns u)
      let ?b2 = "b1\<lparr>head := head b1 + of_int (int (length (Bytes b1)) - int (length (Bytes b)))\<rparr>"
      from True g Returns "1.prems" have l: "Prep_loop need ?b2 = (r, b')"
        by (subst (asm) Prep_loop.simps) simp
      from "1.IH" [OF True refl g [symmetric] Returns l] d1 show ?thesis
        by simp
    next
      case (Panics q)
      with True g "1.prems" have "r = r1" "b' = b1"
        by (subst (asm) Prep_loop.simps, simp)+
      with d1 show ?thesis
        by simp
    qed
  qed
qed

lemma benign_Prep: "benign (Prep sz additionalBytes)"
proof (rule benignI)
  fix b r b'
  assume a: "Prep sz additionalBytes b = (r, b')"
  let ?b1 = "if sz > minalign b then b\<lparr>minalign := sz\<rparr> else b"
  let ?A = "(NOT (int (length (Bytes ?b1)) - int (unat (Head ?b1)) + additionalBytes) + 1)
              AND (sz - 1)"
  have f: "nested ?b1 = nested b" "finished ?b1 = finished b"
    by simp_all
  obtain r2 b2 where l: "Prep_loop (?A + sz + additionalBytes) ?b1 = (r2, b2)"
    by (cases "Prep_loop (?A + sz + additionalBytes) ?b1")
  note d2 = Prep_loop_benign_aux [OF l]
  show "\<not> protocol_panic r \<and> nested b' = nested b \<and> finished b' = finished b"
  proof (cases r2)
    case (Returns u)
    with a l have "Pad_loop (nat ?A) b2 = (r, b')"
      unfolding Prep_def Let_def Pad_def by simp
    from benignD [OF benign_Pad_loop this] d2 f show ?thesis
      by simp
  next
    case (Panics q)
    with a l have "r = r2" "b' = b2"
      unfolding Prep_def Let_def by simp_all
    with d2 f show ?thesis
      by simp
  qed
qed


lemma benign_Prepend: "benign (Prepend k x)"
  by (rule benignI)
     (auto simp: Prepend_def andThen_def split: prod.splits outcome.splits
           dest!: benignD [OF benign_Prep] benignD [OF benign_Place])

lemma benign_Slot: "benign (Slot slotnum)"
  by (rule benignI) (auto simp: Slot_def split: if_split_asm)

lemma benign_PrependSlot: "benign (PrependSlot k slotnum x d)"
  by (rule benignI)
     (auto simp: PrependSlot_def andThen_def split: prod.splits outcome.splits if_split_asm
           dest!: benignD [OF benign_Prepend] benignD [OF benign_Slot])

lemma benign_PrependSOffsetT: "benign (PrependSOffsetT off)"
  by (rule benignI)
     (auto simp: PrependSOffsetT_def PlaceSOffsetT_def split: prod.splits outcome.splits if_split_asm
           dest!: benignD [OF benign_Prep] benignD [OF benign_Place])

lemma benign_PrependUOffsetT: "benign (PrependUOffsetT off)"
  by (rule benignI)
     (auto simp: PrependUOffsetT_def PlaceUOffsetT_def split: prod.splits outcome.splits if_split_asm
           dest!: benignD [OF benign_Prep] benignD [OF benign_Place])

lemma benign_write_entries: "benign (write_entries vs oo)"
proof (induction vs)
  case Nil
  show ?case by (rule benignI) simp
next
  case (Cons v vs)
  show ?case
    by (rule benignI)
       (auto simp: Let_def PrependVOffsetT_def split: prod.splits outcome.splits
             dest!: benignD [OF benign_Prepend] benignD [OF Cons])
qed

lemma put_at_Panics: "put_at k bs off w = Panics p \<Longrightarrow> p = RuntimeError"
  by (simp add: put_at_def split: if_split_asm)

lemma benign_write_new_vtable: "benign (write_new_vtable oo)"
  by (rule benignI)
     (auto simp: write_new_vtable_def Let_def PrependVOffsetT_def
           split: prod.splits outcome.splits if_split_asm
           dest!: benignD [OF benign_Prepend] benignD [OF benign_write_entries] put_at_Panics)

lemma benign_reuse_vtable: "benign (reuse_vtable ex oo)"
  by (rule benignI)
     (auto simp: reuse_vtable_def Let_def put_at_def split: outcome.splits if_split_asm)

lemma vtable_candidate_quiet:
  "vtable_candidate v oo b = Panics p \<Longrightarrow> p = RuntimeError"
  by (auto simp: vtable_candidate_def Let_def get_at_def split: outcome.splits if_split_asm)

lemma find_vtable_quiet: "find_vtable vs oo b = Panics p \<Longrightarrow> p = RuntimeError"
proof (induction vs)
  case Nil
  then show ?case by simp
next
  case (Cons v vs)
  then show ?case
    by (auto split: outcome.splits if_split_asm dest: vtable_candidate_quiet)
qed

lemma find_vtable_not_protocol: "\<not> protocol_panic (find_vtable vs oo b)"
  by (cases "find_vtable vs oo b") (auto dest: find_vtable_quiet)

lemma benign_WriteVtable: "benign WriteVtable"
  by (rule benignI)
     (auto simp: WriteVtable_def Let_def find_vtable_not_protocol split: prod.splits outcome.splits if_split_asm
           dest!: benignD [OF benign_write_new_vtable] benignD [OF benign_reuse_vtable]
                  benignD [OF benign_PrependSOffsetT] find_vtable_quiet
                  find_vtable_quiet [OF sym])

lemma benign_copy_at_head: "benign (copy_at_head s)"
  by (rule benignI) (auto simp: copy_at_head_def Let_def split: if_split_asm)

lemma forget_simps [simp]:
  "forget (Returns a, b) = (Returns (), b)" "forget (Panics p, b) = (Panics p, b)"
  by (simp_all add: forget_def)

lemma StartObject_protocol:
  assumes "\<not> nested b" and "StartObject n b = (r, b')"
  shows "\<not> protocol_panic r \<and> (r = Returns () \<longrightarrow> nested b') \<and> finished b' = finished b"
  using assms by (auto simp: StartObject_def assertNotNested_def Let_def split: if_split_asm)

lemma EndObject_protocol:
  assumes "nested b" and "EndObject b = (r, b')"
  shows "\<not> protocol_panic r \<and> ((\<exists>v. r = Returns v) \<longrightarrow> \<not> nested b') \<and>
         finished b' = finished b"
  using assms
  by (auto simp: EndObject_def assertNested_def split: prod.splits outcome.splits
           dest!: benignD [OF benign_WriteVtable])

lemma StartVector_protocol:
  assumes "\<not> nested b" and "StartVector e n a b = (r, b')"
  shows "\<not> protocol_panic r \<and> ((\<exists>v. r = Returns v) \<longrightarrow> nested b') \<and>
         finished b' = finished b"
  using assms
  by (auto simp: StartVector_def assertNotNested_def split: prod.splits outcome.splits
           dest!: benignD [OF benign_Prep])

lemma EndVector_protocol:
  assumes "nested b" and "EndVector n b = (r, b')"
  shows "\<not> protocol_panic r \<and> ((\<exists>v. r = Returns v) \<longrightarrow> \<not> nested b') \<and>
         finished b' = finished b"
  using assms
  by (auto simp: EndVector_def assertNested_def PlaceUOffsetT_def Let_def
           split: prod.splits outcome.splits dest!: benignD [OF benign_Place])

lemma CreateString_protocol:
  assumes "\<not> nested b" and "CreateString s b = (r, b')"
  shows "\<not> protocol_panic r \<and> ((\<exists>v. r = Returns v) \<longrightarrow> \<not> nested b') \<and>
         finished b' = finished b"
proof -
  have "nested b3 \<Longrightarrow> finished b3 = finished b \<Longrightarrow> EndVector (int (length s)) b3 = (r, b') \<Longrightarrow>
          ?thesis" for b3
    using EndVector_protocol [of b3 "int (length s)" r b'] by simp
  with assms show ?thesis
    by (auto simp: CreateString_def CreateByteString_def assertNotNested_def PlaceByte_def
             split: prod.splits outcome.splits
             dest!: benignD [OF benign_Prep] benignD [OF benign_Place]
                    benignD [OF benign_copy_at_head])
qed

lemma Finish_protocol:
  assumes "\<not> nested b" and "Finish root b = (r, b')"
  shows "\<not> protocol_panic r \<and> \<not> nested b' \<and> (r = Returns () \<longrightarrow> finished b') \<and>
         (finished b \<longrightarrow> finished b')"
  using assms
  by (auto simp: Finish_def assertNotNested_def split: prod.splits outcome.splits
           dest!: benignD [OF benign_Prep] benignD [OF benign_PrependUOffsetT])

lemma FinishedBytes_protocol:
  assumes "finished b" and "FinishedBytes b = (r, b')"
  shows "\<not> protocol_panic r \<and> b' = b"
  using assms
  by (auto simp: FinishedBytes_def assertFinished_def split: if_split_asm)

lemma perform_protocol:
  assumes inv: "nested b = (m \<noteq> Idle)" "fin \<longrightarrow> finished b"
    and st: "step_mode m fin c = Some (m', fin')"
    and p: "perform c b = (r, b')"
  shows "\<not> protocol_panic r \<and>
         (r = Returns () \<longrightarrow> nested b' = (m' \<noteq> Idle) \<and> (fin' \<longrightarrow> finished b'))"
proof (cases c)
  case (StartObject_call n)
  with st inv p StartObject_protocol [of b n r b'] show ?thesis
    by (auto simp: step_mode_def split: if_split_asm)
next
  case (PrependSlot_call k slotnum x d)
  with st inv p benignD [OF benign_PrependSlot, of k slotnum x d b r b'] show ?thesis
    by (auto simp: step_mode_def split: if_split_asm)
next
  case EndObject_call
  with st inv p EndObject_protocol [of b "fst (EndObject b)" "snd (EndObject b)"] show ?thesis
    by (cases "EndObject b"; cases "fst (EndObject b)")
       (auto simp: step_mode_def split: if_split_asm)
next
  case (StartVector_call e n a)
  with st inv p
    StartVector_protocol [of b e n a "fst (StartVector e n a b)" "snd (StartVector e n a b)"]
  show ?thesis
    by (cases "StartVector e n a b"; cases "fst (StartVector e n a b)")
       (auto simp: step_mode_def split: if_split_asm)
next
  case (Prepend_call k x)
  with st inv p benignD [OF benign_Prepend, of k x b r b'] show ?thesis
    by (auto simp: step_mode_def split: if_split_asm)
next
  case (EndVector_call n)
  with st inv p EndVector_protocol [of b n "fst (EndVector n b)" "snd (EndVector n b)"]
  show ?thesis
    by (cases "EndVector n b"; cases "fst (EndVector n b)")
       (auto simp: step_mode_def split: if_split_asm)
next
  case (CreateString_call s)
  with st inv p CreateString_protocol [of b s "fst (CreateString s b)" "snd (CreateString s b)"]
  show ?thesis
    by (cases "CreateString s b"; cases "fst (CreateString s b)")
       (auto simp: step_mode_def split: if_split_asm)
next
  case (Finish_call root)
  with st inv p Finish_protocol [of b root r b'] show ?thesis
    by (auto simp: step_mode_def split: if_split_asm)
next
  case FinishedBytes_call
  with st inv p FinishedBytes_protocol [of b "fst (FinishedBytes b)" "snd (FinishedBytes b)"]
  show ?thesis
    by (cases "FinishedBytes b"; cases "fst (FinishedBytes b)")
       (auto simp: step_mode_def split: if_split_asm)
qed

lemma run_protocol:
  "nested b = (m \<noteq> Idle) \<Longrightarrow> (fin \<longrightarrow> finished b) \<Longrightarrow> protocol m fin cs \<Longrightarrow>
     \<not> protocol_panic (fst (run cs b))"
proof (induction cs arbitrary: m fin b)
  case Nil
  show ?case by simp
next
  case (Cons c cs)
  from Cons.prems(3) obtain m' fin' where st: "step_mode m fin c = Some (m', fin')"
    and rest: "protocol m' fin' cs"
    by (auto split: option.splits)
  obtain r b1 where p: "perform c b = (r, b1)"
    by (cases "perform c b")
  note pp = perform_protocol [OF Cons.prems(1,2) st p]
  show ?case
  proof (cases r)
    case (Returns u)
    with pp have "nested b1 = (m' \<noteq> Idle)" "fin' \<longrightarrow> finished b1"
      by simp_all
    from Cons.IH [OF this rest] p Returns show ?thesis
      by simp
  next
    case (Panics q)
    with pp p show ?thesis
      by simp
  qed
qed

text \<open>
  C9. Nesting and finish protocol: \<open>StartObject\<close>, \<open>StartVector\<close> and \<open>CreateString\<close>
  panic when something is open, \<open>EndObject\<close> and \<open>EndVector\<close> panic when nothing is,
  \<open>Finish\<close> panics while something is open and \<open>FinishedBytes\<close> panics before
  \<open>Finish\<close>, each leaving the builder as it was; and a well-formed call sequence, run
  on a builder with nothing open, never ends in one of these three panics.
\<close>

theorem nesting_and_finish_protocol:
  "(nested b \<longrightarrow>
      StartObject n b = (Panics MustNotBeNested, b) \<and>
      StartVector elemSize numElems alignment b = (Panics MustNotBeNested, b) \<and>
      CreateString s b = (Panics MustNotBeNested, b) \<and>
      Finish root b = (Panics MustNotBeNested, b)) \<and>
   (\<not> nested b \<longrightarrow>
      EndObject b = (Panics MustBeInsideObject, b) \<and>
      EndVector k b = (Panics MustBeInsideObject, b)) \<and>
   (\<not> finished b \<longrightarrow> FinishedBytes b = (Panics MustCallFinishFirst, b)) \<and>
   (\<not> nested b \<and> protocol Idle (finished b) cs \<longrightarrow> \<not> protocol_panic (fst (run cs b)))"
proof (intro conjI impI)
  assume "\<not> nested b \<and> protocol Idle (finished b) cs"
  then show "\<not> protocol_panic (fst (run cs b))"
    using run_protocol [of b Idle "finished b" cs] by simp
qed (simp_all add: StartObject_def StartVector_def CreateString_def CreateByteString_def
      Finish_def EndObject_def EndVector_def FinishedBytes_def assertNested_def
      assertNotNested_def assertFinished_def)


theorem nesting_and_finish_protocol_witness:
  "nested ((NewBuilder 0)\<lparr>nested := True\<rparr>) \<and>
   StartObject 1 ((NewBuilder 0)\<lparr>nested := True\<rparr>) =
     (Panics MustNotBeNested, (NewBuilder 0)\<lparr>nested := True\<rparr>) \<and>
   Finish 0 ((NewBuilder 0)\<lparr>nested := True\<rparr>) =
     (Panics MustNotBeNested, (NewBuilder 0)\<lparr>nested := True\<rparr>) \<and>
   \<not> nested (NewBuilder 0) \<and> \<not> finished (NewBuilder 0) \<and>
   EndObject (NewBuilder 0) = (Panics MustBeInsideObject, NewBuilder 0) \<and>
   FinishedBytes (NewBuilder 0) = (Panics MustCallFinishFirst, NewBuilder 0) \<and>
   protocol Idle (finished (NewBuilder 0))
     [StartObject_call 1, PrependSlot_call 4 0 42 0, EndObject_call,
      CreateString_call [104, 105],
      StartVector_call 1 2 1, Prepend_call 1 7, Prepend_call 1 8, EndVector_call 2,
      Finish_call 8, FinishedBytes_call] \<and>
   \<not> protocol_panic (fst (run
     [StartObject_call 1, PrependSlot_call 4 0 42 0, EndObject_call,
      CreateString_call [104, 105],
      StartVector_call 1 2 1, Prepend_call 1 7, Prepend_call 1 8, EndVector_call 2,
      Finish_call 8, FinishedBytes_call] (NewBuilder 0))) \<and>
   fst (run
     [StartObject_call 1, PrependSlot_call 4 0 42 0, EndObject_call,
      CreateString_call [104, 105],
      StartVector_call 1 2 1, Prepend_call 1 7, Prepend_call 1 8, EndVector_call 2,
      Finish_call 8, FinishedBytes_call] (NewBuilder 0)) = Returns ()"
proof -
  let ?cs = "[StartObject_call 1, PrependSlot_call 4 0 42 0, EndObject_call,
      CreateString_call [104, 105],
      StartVector_call 1 2 1, Prepend_call 1 7, Prepend_call 1 8, EndVector_call 2,
      Finish_call 8, FinishedBytes_call]"
  have n: "nested ((NewBuilder 0)\<lparr>nested := True\<rparr>)"
    by simp
  have i: "\<not> nested (NewBuilder 0)" "\<not> finished (NewBuilder 0)"
    by (simp_all add: NewBuilder_def)
  have p: "protocol Idle (finished (NewBuilder 0)) ?cs"
    by (simp add: step_mode_def)
  have r: "fst (run ?cs (NewBuilder 0)) = Returns ()"
    by code_simp
  from nesting_and_finish_protocol [of "(NewBuilder 0)\<lparr>nested := True\<rparr>" 1 0 0 0 "[]" 0 0 "[]"] n
  have a: "StartObject 1 ((NewBuilder 0)\<lparr>nested := True\<rparr>) =
             (Panics MustNotBeNested, (NewBuilder 0)\<lparr>nested := True\<rparr>)"
    "Finish 0 ((NewBuilder 0)\<lparr>nested := True\<rparr>) =
             (Panics MustNotBeNested, (NewBuilder 0)\<lparr>nested := True\<rparr>)"
    by blast+
  from nesting_and_finish_protocol [of "NewBuilder 0" 1 0 0 0 "[]" 0 0 ?cs] i p
  have c: "EndObject (NewBuilder 0) = (Panics MustBeInsideObject, NewBuilder 0)"
    "FinishedBytes (NewBuilder 0) = (Panics MustCallFinishFirst, NewBuilder 0)"
    "\<not> protocol_panic (fst (run ?cs (NewBuilder 0)))"
    by blast+
  from n i p r a c show ?thesis
    by blast
qed

subsection \<open>Vectors, strings and finishing\<close>

lemma copy_slice_Bytes:
  assumes "lo + length s = hi" and "hi \<le> length B"
  shows "take (length B) (copy_slice lo hi (B @ S) s) = take lo B @ s @ drop hi B"
    and "drop (length B) (copy_slice lo hi (B @ S) s) = S"
proof -
  have c: "copy_into (take (hi - lo) (drop lo (B @ S))) s = s"
    using assms by (simp add: copy_into_def)
  have e: "copy_slice lo hi (B @ S) s = (take lo B @ s @ drop hi B) @ S"
    unfolding copy_slice_def c using assms by simp
  have l: "length (take lo B @ s @ drop hi B) = length B"
    using assms by simp
  show "take (length B) (copy_slice lo hi (B @ S) s) = take lo B @ s @ drop hi B"
    unfolding e using l by (metis append_eq_conv_conj)
  show "drop (length B) (copy_slice lo hi (B @ S) s) = S"
    unfolding e using l by (metis append_eq_conv_conj)
qed

lemma copy_at_head_spec:
  assumes wf: "wellformed b" and room: "length s \<le> unat (head b)"
  shows "\<exists>b'. copy_at_head s b = (Returns (), b') \<and> grows_by s b b' \<and>
              minalign b' = minalign b \<and> unat (head b') + length s = unat (head b)"
proof -
  let ?l = "of_nat (length s) :: UOffsetT"
  let ?lo = "unat (head b) - length s"
  let ?hi = "unat (head b)"
  from wf have w: "?hi \<le> length (Bytes b)" "length (Bytes b) < 2 ^ 31" "1 \<le> minalign b"
    by (simp_all add: wellformed_def)
  have "unat (head b) < 2 ^ 32"
    using unsigned_less [of "head b", where 'a = nat] by simp
  with room have "length s < 2 ^ 32"
    by simp
  then have ul: "unat ?l = length s"
    by (simp add: unat_of_nat)
  have "?l \<le> head b"
    using room by (simp add: word_le_nat_alt ul)
  then have lo: "unat (head b - ?l) = ?lo"
    by (simp only: unat_sub ul)
  have lh: "?lo + length s = ?hi"
    using room by simp
  note cs = copy_slice_Bytes [OF lh w(1), of "spare b"]
  let ?b' = "b\<lparr>head := head b - ?l, Bytes := take ?lo (Bytes b) @ s @ drop ?hi (Bytes b),
                spare := spare b\<rparr>"
  have r: "copy_at_head s b = (Returns (), ?b')"
    unfolding copy_at_head_def Let_def
    using room w by (simp add: lo cs)
  have wr: "written ?b' = s @ written b"
    using room w by (simp add: written_def lo)
  have wf': "wellformed ?b'"
    using room w by (simp add: wellformed_def lo)
  have "grows_by s b ?b'"
    using wr wf' by (simp add: grows_by_def)
  moreover have "unat (head ?b') + length s = unat (head b)"
    using room by (simp add: lo)
  ultimately show ?thesis
    using r by auto
qed

lemma EndVector_spec:
  assumes wf: "wellformed b" and r: "EndVector n b = (Returns off, b')"
  shows "wellformed b'" and "written b' = le_bytes 4 (of_int n :: UOffsetT) @ written b"
    and "off = of_nat (length (written b'))" and "\<not> nested b'" and "nested b"
    and "vtables b' = vtables b" and "minalign b' = minalign b" and "finished b' = finished b"
proof -
  from r obtain b1 where n: "nested b"
    and p: "Place 4 (of_int n :: UOffsetT) b = (Returns (), b1)"
    and b': "b' = b1\<lparr>nested := False\<rparr>" and off: "off = Offset (b1\<lparr>nested := False\<rparr>)"
    by (auto simp: EndVector_def assertNested_def PlaceUOffsetT_def SizeUOffsetT_def Let_def
             split: prod.splits outcome.splits if_split_asm)
  from Place_spec [OF wf _ p] have g: "grows_by (le_bytes 4 (of_int n :: UOffsetT)) b b1"
    and m: "minalign b1 = minalign b"
    by simp_all
  show "nested b" by (rule n)
  show wf': "wellformed b'"
    using g by (simp add: b' grows_by_def)
  show "written b' = le_bytes 4 (of_int n :: UOffsetT) @ written b"
    using g by (simp add: b' grows_by_def)
  show "off = of_nat (length (written b'))"
    using Offset_written [OF wf'] by (simp add: off b')
  show "\<not> nested b'" by (simp add: b')
  show "vtables b' = vtables b" "finished b' = finished b"
    using g by (simp_all add: b' grows_by_def)
  show "minalign b' = minalign b"
    using m by (simp add: b')
qed

lemma CreateByteString_spec:
  assumes wf: "wellformed b" and r: "CreateByteString s b = (Returns off, b')"
  shows "wellformed b'"
    and "written b' = le_bytes 4 (of_nat (length s) :: UOffsetT) @ s @ [0] @
           replicate (pad_for 4 (length (written b) + (length s + 1))) 0 @ written b"
    and "off = of_nat (length (written b'))" and "\<not> nested b'" and "\<not> nested b"
    and "vtables b' = vtables b" and "finished b' = finished b"
    and "minalign b' = max (minalign b) 4"
proof -
  let ?p = "pad_for 4 (length (written b) + (length s + 1))"
  let ?b0 = "b\<lparr>nested := True\<rparr>"
  from r obtain b1 b2 b3 where nn: "\<not> nested b"
    and p1: "Prep 4 (int (length s) + 1) ?b0 = (Returns (), b1)"
    and p2: "Place 1 (0 :: byte) b1 = (Returns (), b2)"
    and c3: "copy_at_head s b2 = (Returns (), b3)"
    and e4: "EndVector (int (length s)) b3 = (Returns off, b')"
    by (auto simp: CreateByteString_def assertNotNested_def PlaceByte_def SizeByte_def
                   SizeUOffsetT_def
             split: prod.splits outcome.splits if_split_asm)
  show "\<not> nested b" by (rule nn)
  have wf0: "wellformed ?b0" using wf by simp
  have four: "(4::int) \<in> {1, 2, 4, 8}" by simp
  from Prep_spec_pow2 [OF wf0 four _ p1]
  have g1: "grows_by (replicate ?p 0) ?b0 b1" and m1: "minalign b1 = max (minalign b) 4"
    and room1: "4 + (int (length s) + 1) < int (unat (head b1))"
    by (simp_all add: nat_add_distrib)
  have wf1: "wellformed b1" using g1 by (rule grows_by_wellformed)
  from Place_spec [OF wf1 _ p2]
  have g2: "grows_by [0] b1 b2" and m2: "minalign b2 = minalign b1"
    and h2: "unat (head b2) + 1 = unat (head b1)"
    by (simp_all add: le_bytes_one_zero)
  have wf2: "wellformed b2" using g2 by (rule grows_by_wellformed)
  have "length s \<le> unat (head b2)"
    using room1 h2 by linarith
  from copy_at_head_spec [OF wf2 this] c3
  have g3: "grows_by s b2 b3" and m3: "minalign b3 = minalign b2"
    by auto
  have wf3: "wellformed b3" using g3 by (rule grows_by_wellformed)
  from grows_by_trans [OF grows_by_trans [OF g1 g2] g3]
  have g: "grows_by (s @ [0] @ replicate ?p 0) ?b0 b3"
    by simp
  note ev = EndVector_spec [OF wf3 e4]
  show "wellformed b'" by (rule ev(1))
  from ev(2) g show "written b' = le_bytes 4 (of_nat (length s) :: UOffsetT) @ s @ [0] @
           replicate ?p 0 @ written b"
    by (simp add: grows_by_def)
  show "off = of_nat (length (written b'))" by (rule ev(3))
  show "\<not> nested b'" by (rule ev(4))
  from ev(6) g show "vtables b' = vtables b"
    by (simp add: grows_by_def)
  from ev(8) g show "finished b' = finished b"
    by (simp add: grows_by_def)
  from ev(7) m1 m2 m3 show "minalign b' = max (minalign b) 4"
    by simp
qed

lemma Finish_spec:
  assumes wf: "wellformed b" and r: "Finish root b = (Returns u, b')"
  shows "\<exists>q. written b' =
               le_bytes 4 (of_nat (length (written b) + q) - root + 4 :: UOffsetT) @
               replicate q 0 @ written b \<and>
             root \<le> of_nat (length (written b) + q)"
    and "wellformed b'" and "finished b'" and "\<not> nested b"
proof -
  from r obtain b1 b2 where nn: "\<not> nested b"
    and p1: "Prep (minalign b) 4 b = (Returns (), b1)"
    and p2: "PrependUOffsetT root b1 = (Returns (), b2)"
    and b': "b' = b2\<lparr>finished := True\<rparr>"
    by (auto simp: Finish_def assertNotNested_def SizeUOffsetT_def
             split: prod.splits outcome.splits if_split_asm)
  show "\<not> nested b" by (rule nn)
  have m: "1 \<le> minalign b"
    using wf by (simp add: wellformed_def)
  from Prep_spec [OF wf m _ p1] obtain q1 where g1: "grows_by (replicate q1 0) b b1"
    by auto
  have wf1: "wellformed b1" using g1 by (rule grows_by_wellformed)
  have w1: "written b1 = replicate q1 0 @ written b"
    using g1 by (simp add: grows_by_def)
  define q2 where "q2 = pad_for 4 (length (written b1))"
  note sp = PrependUOffsetT_spec [OF wf1 p2, folded q2_def]
  have len: "length (written b1) + q2 = length (written b) + (q2 + q1)"
    by (simp add: w1)
  have w2: "written b2 = le_bytes 4 (of_nat (length (written b) + (q2 + q1)) - root + 4 :: UOffsetT) @
                         replicate q2 0 @ written b1"
    using sp(1) unfolding len by (simp add: grows_by_def)
  have wf2: "wellformed b2"
    using sp(1) by (rule grows_by_wellformed)
  show "wellformed b'" using wf2 by (simp add: b')
  show "finished b'" by (simp add: b')
  have "written b' =
          le_bytes 4 (of_nat (length (written b) + (q2 + q1)) - root + 4 :: UOffsetT) @
          replicate (q2 + q1) 0 @ written b"
    unfolding replicate_add by (simp add: b' w2 w1)
  moreover have "root \<le> of_nat (length (written b) + (q2 + q1))"
    using sp(3) unfolding len .
  ultimately show "\<exists>q. written b' =
               le_bytes 4 (of_nat (length (written b) + q) - root + 4 :: UOffsetT) @
               replicate q 0 @ written b \<and>
             root \<le> of_nat (length (written b) + q)"
    by blast
qed

lemma FinishedBytes_spec:
  "FinishedBytes b = (Returns F, b') \<Longrightarrow> F = written b \<and> b' = b \<and> finished b"
  by (auto simp: FinishedBytes_def assertFinished_def Head_def written_def split: if_split_asm)

declare length_le_bytes [simp]

lemma unat_of_nat_32: "n < 2 ^ 32 \<Longrightarrow> unat (of_nat n :: 32 word) = n"
  by (simp add: unat_of_nat)

lemma drop_prefix: "n = length A \<Longrightarrow> drop n (A @ B) = B"
  by simp

lemma read_root_string:
  assumes F: "F = le_bytes 4 (of_nat (q + 4) :: UOffsetT) @ replicate q 0 @
                  le_bytes 4 (of_nat (length s) :: UOffsetT) @ s @ rest"
    and small: "length F < 2 ^ 31"
  shows "ByteVector \<lparr>tBytes = F, Pos = 0\<rparr> 0 = Returns s"
    and "VectorLen \<lparr>tBytes = F, Pos = 0\<rparr> 0 = Returns (int (length s))"
proof -
  define P :: UOffsetT where "P = of_nat (q + 4)"
  define N :: UOffsetT where "N = of_nat (length s)"
  let ?X = "le_bytes 4 P @ replicate q 0"
  let ?H = "le_bytes 4 N"
  have F': "F = ?X @ ?H @ s @ rest"
    by (simp add: F P_def N_def)
  have lF: "length F = 4 + q + 4 + length s + length rest"
    by (simp add: F)
  have lX: "length ?X = q + 4"
    by simp
  have g0: "get_at 4 F 0 = Returns P"
    unfolding F' append_assoc by (rule get_at_le_bytes) simp
  have u1: "unat P = q + 4"
    unfolding P_def using small lF by (intro unat_of_nat_32) simp
  have "get_at 4 (?X @ ?H @ s @ rest) (length ?X) = Returns N"
    by (rule get_at_le_bytes_at) simp
  then have g1: "get_at 4 F (q + 4) = Returns N"
    unfolding lX F' .
  have u2: "unat N = length s"
    unfolding N_def using small lF by (intro unat_of_nat_32) simp
  have "P + 4 = of_nat (q + 8)"
    by (simp add: P_def)
  then have u3: "unat (P + 4) = q + 8"
    using small lF by (simp only: ) (intro unat_of_nat_32, simp)
  have "P + 4 + N = of_nat (q + 8 + length s)"
    by (simp add: P_def N_def)
  then have u4: "unat (P + 4 + N) = q + 8 + length s"
    using small lF by (simp only: ) (intro unat_of_nat_32, simp)
  have "drop (q + 8) ((?X @ ?H) @ s @ rest) = s @ rest"
    by (rule drop_prefix) simp
  then have d: "take (length s) (drop (q + 8) F) = s"
    by (simp add: F')
  show "ByteVector \<lparr>tBytes = F, Pos = 0\<rparr> 0 = Returns s"
    using lF by (simp add: ByteVector_def SizeUOffsetT_def g0 u1 g1 Let_def u3 u4 d)
  show "VectorLen \<lparr>tBytes = F, Pos = 0\<rparr> 0 = Returns (int (length s))"
    by (simp add: VectorLen_def SizeUOffsetT_def g0 u1 g1 Let_def u2)
qed


text \<open>
  C8 (as amended). Vector and string length: \<open>CreateString(s)\<close> and
  \<open>CreateByteString(s)\<close> store a length header equal to \<open>len(s)\<close>, then the bytes of
  \<open>s\<close>, then a zero byte that the header does not count; after \<open>Finish\<close> with the
  returned offset, \<open>ByteVector\<close>, \<open>String\<close> and \<open>VectorLen\<close> at the root pointer of
  the finished bytes give exactly the bytes of \<open>s\<close> and \<open>len(s)\<close>, whatever data and
  padding the builder held before. \<open>EndVector(n)\<close> writes \<open>n\<close> into the length header
  for every \<open>n\<close> from 0 up to \<open>2^32 - 1\<close>.
\<close>

theorem string_and_vector_length:
  assumes wf: "wellformed b"
    and c: "CreateString s b = (Returns off, b1)"
    and f: "Finish off b1 = (Returns u, b2)"
    and fb: "FinishedBytes b2 = (Returns F, b3)"
  shows "CreateByteString s b = CreateString s b \<and>
         get_at SizeUOffsetT (written b1) 0 = Returns (of_nat (length s) :: UOffsetT) \<and>
         unat (of_nat (length s) :: UOffsetT) = length s \<and>
         take (length s) (drop 4 (written b1)) = s \<and>
         written b1 ! (4 + length s) = 0 \<and>
         ByteVector \<lparr>tBytes = F, Pos = 0\<rparr> 0 = Returns s \<and>
         String \<lparr>tBytes = F, Pos = 0\<rparr> 0 = Returns s \<and>
         VectorLen \<lparr>tBytes = F, Pos = 0\<rparr> 0 = Returns (int (length s)) \<and>
         (wellformed v \<and> 0 \<le> n \<and> n < 2 ^ 32 \<and> EndVector n v = (Returns off', v') \<longrightarrow>
            get_at SizeUOffsetT (written v') 0 = Returns (of_int n :: UOffsetT) \<and>
            int (unat (of_int n :: UOffsetT)) = n)"
proof -
  let ?p = "pad_for 4 (length (written b) + (length s + 1))"
  let ?rest = "[0] @ replicate ?p 0 @ written b"
  let ?N = "of_nat (length s) :: UOffsetT"
  from c have c': "CreateByteString s b = (Returns off, b1)"
    by (simp add: CreateString_def)
  note cs = CreateByteString_spec [OF wf c']
  have w1: "written b1 = le_bytes 4 ?N @ s @ ?rest"
    using cs(2) by simp
  have l1: "length (written b1) < 2 ^ 31"
    using cs(1) by (rule written_small)
  then have ls: "length s < 2 ^ 32"
    by (simp add: w1)
  have h: "get_at SizeUOffsetT (written b1) 0 = Returns ?N"
    unfolding w1 SizeUOffsetT_def by (rule get_at_le_bytes) simp
  have un: "unat ?N = length s"
    using ls by (rule unat_of_nat_32)
  have "drop 4 (le_bytes 4 ?N @ s @ ?rest) = s @ ?rest"
    by (rule drop_prefix) simp
  then have bytes: "take (length s) (drop 4 (written b1)) = s"
    by (simp add: w1)
  have "(le_bytes 4 ?N @ s) @ ?rest = written b1"
    by (simp add: w1)
  then have "written b1 ! (length (le_bytes 4 ?N @ s)) = 0"
    by (metis append_Cons nth_append_length)
  then have nul: "written b1 ! (4 + length s) = 0"
    by simp
  from Finish_spec(1) [OF cs(1) f] obtain q where
    w2: "written b2 = le_bytes 4 (of_nat (length (written b1) + q) - off + 4 :: UOffsetT) @
                      replicate q 0 @ written b1"
    by blast
  have "(of_nat (length (written b1) + q) - off + 4 :: UOffsetT) = of_nat (q + 4)"
    by (simp add: cs(3))
  with w2 have w2': "written b2 = le_bytes 4 (of_nat (q + 4) :: UOffsetT) @ replicate q 0 @
                       le_bytes 4 ?N @ s @ ?rest"
    by (simp only: w1)
  from FinishedBytes_spec [OF fb] have F: "F = written b2"
    by simp
  have "length F < 2 ^ 31"
    unfolding F using Finish_spec(2) [OF cs(1) f] by (rule written_small)
  note rd = read_root_string [OF w2' [folded F] this]
  have ev: "get_at SizeUOffsetT (written v') 0 = Returns (of_int n :: UOffsetT) \<and>
            int (unat (of_int n :: UOffsetT)) = n"
    if "wellformed v" "0 \<le> n" "n < 2 ^ 32" "EndVector n v = (Returns off', v')"
  proof -
    from EndVector_spec(2) [OF that(1,4)]
    have "get_at SizeUOffsetT (written v') 0 = Returns (of_int n :: UOffsetT)"
      unfolding SizeUOffsetT_def by (simp add: get_at_le_bytes)
    moreover have "uint (of_int n :: UOffsetT) = n"
      using that(2,3) by (simp add: uint_word_of_int)
    ultimately show ?thesis
      by simp
  qed
  from h un bytes nul rd ev show ?thesis
    by (simp add: CreateString_def String_def)
qed


theorem string_and_vector_length_witness:
  "wellformed (NewBuilder 0) \<and>
   CreateString [104, 101, 108, 108, 111] (NewBuilder 0) =
     (Returns 12,
      \<lparr>Bytes = [0, 0, 0, 0, 5, 0, 0, 0, 104, 101, 108, 108, 111, 0, 0, 0],
        spare = [], minalign = 4, vtable = [], objectEnd = 0, vtables = [],
        head = 4, nested = False, finished = False\<rparr>) \<and>
   ByteVector \<lparr>tBytes = [4, 0, 0, 0, 5, 0, 0, 0, 104, 101, 108, 108, 111, 0, 0, 0], Pos = 0\<rparr> 0 =
     Returns [104, 101, 108, 108, 111] \<and>
   VectorLen \<lparr>tBytes = [4, 0, 0, 0, 5, 0, 0, 0, 104, 101, 108, 108, 111, 0, 0, 0], Pos = 0\<rparr> 0 =
     Returns 5 \<and>
   StartVector 1 0 1 (NewBuilder 0) =
     (Returns 0,
      \<lparr>Bytes = [0, 0, 0, 0, 0, 0, 0, 0], spare = [], minalign = 4, vtable = [],
        objectEnd = 0, vtables = [], head = 8, nested = True, finished = False\<rparr>) \<and>
   wellformed \<lparr>Bytes = [0, 0, 0, 0, 0, 0, 0, 0], spare = [], minalign = 4, vtable = [],
        objectEnd = 0, vtables = [], head = 8, nested = True, finished = False\<rparr> \<and>
   EndVector 7 \<lparr>Bytes = [0, 0, 0, 0, 0, 0, 0, 0], spare = [], minalign = 4, vtable = [],
        objectEnd = 0, vtables = [], head = 8, nested = True, finished = False\<rparr> =
     (Returns 4,
      \<lparr>Bytes = [0, 0, 0, 0, 7, 0, 0, 0], spare = [], minalign = 4, vtable = [],
        objectEnd = 0, vtables = [], head = 4, nested = False, finished = False\<rparr>) \<and>
   get_at SizeUOffsetT
     (written \<lparr>Bytes = [0, 0, 0, 0, 7, 0, 0, 0], spare = [], minalign = 4, vtable = [],
        objectEnd = 0, vtables = [], head = 4, nested = False, finished = False\<rparr>) 0 =
     Returns (7 :: UOffsetT)"
proof -
  let ?s = "[104, 101, 108, 108, 111] :: byte list"
  let ?b1 = "\<lparr>Bytes = [0, 0, 0, 0, 5, 0, 0, 0, 104, 101, 108, 108, 111, 0, 0, 0],
        spare = [], minalign = 4, vtable = [], objectEnd = 0, vtables = [],
        head = 4, nested = False, finished = False\<rparr>"
  let ?b2 = "\<lparr>Bytes = [0, 0, 0, 0, 5, 0, 0, 0, 104, 101, 108, 108, 111, 0, 0, 0, 4, 0, 0, 0,
                      5, 0, 0, 0, 104, 101, 108, 108, 111, 0, 0, 0],
        spare = [], minalign = 4, vtable = [], objectEnd = 0, vtables = [],
        head = 16, nested = False, finished = True\<rparr>"
  let ?F = "[4, 0, 0, 0, 5, 0, 0, 0, 104, 101, 108, 108, 111, 0, 0, 0] :: byte list"
  let ?v = "\<lparr>Bytes = [0, 0, 0, 0, 0, 0, 0, 0], spare = [], minalign = 4, vtable = [],
        objectEnd = 0, vtables = [], head = 8, nested = True, finished = False\<rparr>"
  let ?v' = "\<lparr>Bytes = [0, 0, 0, 0, 7, 0, 0, 0], spare = [], minalign = 4, vtable = [],
        objectEnd = 0, vtables = [], head = 4, nested = False, finished = False\<rparr>"
  have wf: "wellformed (NewBuilder 0)"
    by (rule wellformed_NewBuilder) simp_all
  have c: "CreateString ?s (NewBuilder 0) = (Returns 12, ?b1)"
    by code_simp
  have f: "Finish 12 ?b1 = (Returns (), ?b2)"
    by code_simp
  have fb: "FinishedBytes ?b2 = (Returns ?F, ?b2)"
    by code_simp
  have sv: "StartVector 1 0 1 (NewBuilder 0) = (Returns 0, ?v)"
    by code_simp
  have wv: "wellformed ?v"
    by (simp add: wellformed_def)
  have ev: "EndVector 7 ?v = (Returns 4, ?v')"
    by code_simp
  note th = string_and_vector_length [OF wf c f fb, of ?v 7 4 ?v']
  from th have "ByteVector \<lparr>tBytes = ?F, Pos = 0\<rparr> 0 = Returns ?s"
    "VectorLen \<lparr>tBytes = ?F, Pos = 0\<rparr> 0 = Returns (int (length ?s))"
    by blast+
  moreover from th wv ev have "get_at SizeUOffsetT (written ?v') 0 = Returns (of_int 7 :: UOffsetT)"
    by simp
  ultimately show ?thesis
    using wf c sv wv ev by simp
qed

text \<open>
  C8 as it was stated fails for \<open>EndVector(n)\<close> with \<open>n\<close> outside the range of the
  32-bit header: after \<open>StartVector(1, 0, 1)\<close> on a new builder, \<open>EndVector(2^32 + 5)\<close>
  returns, and the header it wrote is 5.
\<close>

theorem EndVector_counterexample:
  "StartVector 1 0 1 (NewBuilder 0) =
     (Returns 0,
      \<lparr>Bytes = [0, 0, 0, 0, 0, 0, 0, 0], spare = [], minalign = 4, vtable = [],
        objectEnd = 0, vtables = [], head = 8, nested = True, finished = False\<rparr>) \<and>
   EndVector 4294967301
     \<lparr>Bytes = [0, 0, 0, 0, 0, 0, 0, 0], spare = [], minalign = 4, vtable = [],
       objectEnd = 0, vtables = [], head = 8, nested = True, finished = False\<rparr> =
     (Returns 4,
      \<lparr>Bytes = [0, 0, 0, 0, 5, 0, 0, 0], spare = [], minalign = 4, vtable = [],
        objectEnd = 0, vtables = [], head = 4, nested = False, finished = False\<rparr>) \<and>
   get_at SizeUOffsetT [5, 0, 0, 0] 0 = Returns (5 :: UOffsetT) \<and>
   int (unat (5 :: UOffsetT)) \<noteq> 4294967301"
  by code_simp

subsection \<open>Comparing vtables\<close>





subsection \<open>Finding a committed vtable\<close>









subsection \<open>Sharing vtables\<close>




end
